theory Spec2Isabelle
  imports Main "HOL-Library.Word"
begin

unbundle bit_operations_syntax

section \<open>MIDI track splitter: data model\<close>

text \<open>
  The embedding follows \<^verbatim>\<open>src/midisplitter2.cpp\<close> (class \<^verbatim>\<open>MIDISplitter\<close>).
  Bytes are \<open>8 word\<close>, \<^verbatim>\<open>uint16_t\<close> is \<open>16 word\<close>, \<^verbatim>\<open>uint32_t\<close> is \<open>32 word\<close> and
  \<^verbatim>\<open>size_t\<close> is \<open>64 word\<close> (an LP64 platform) wherever a value of that type comes from
  outside the function, so that its arithmetic wraps as in the source. Loop indices that
  the source keeps below a vector's size are natural numbers.
\<close>

type_synonym byte = "8 word"
type_synonym u16 = "16 word"
type_synonym u32 = "32 word"
type_synonym size_t = "64 word"

text \<open>A path is the pair of the directory and the file name (\<^verbatim>\<open>fs::path(dir) / file\<close>).\<close>

type_synonym path = "string \<times> string"

text \<open>
  Every \<^verbatim>\<open>throw std::runtime_error\<close> of the source is a constructor, named after its
  message. \<open>OutOfBoundsRead\<close> marks a \<^verbatim>\<open>vector::operator[]\<close> outside the vector (undefined
  behaviour in C++), \<open>BadAlloc\<close> is \<^verbatim>\<open>std::bad_alloc\<close>, \<open>FilesystemError\<close> is the
  \<^verbatim>\<open>fs::filesystem_error\<close> of \<^verbatim>\<open>fs::exists\<close>.
\<close>

datatype error =
    OutOfBoundsRead
  | BadAlloc
  | CannotOpenFile
  | HeaderReadError
  | MissingMThd
  | InvalidHeaderSize
  | NotFormat1
  | InvalidFilePosition nat
  | TrackHeaderReadError nat
  | InvalidTrackHeader nat
  | SeekNextTrackError nat
  | FilesystemError path
  | CannotCreateOutput path
  | HeaderWriteError path
  | SeekTrackError nat
  | OutputWriteError

definition bindE :: "error + 'a \<Rightarrow> ('a \<Rightarrow> error + 'b) \<Rightarrow> error + 'b" where
  "bindE m f = (case m of Inl e \<Rightarrow> Inl e | Inr x \<Rightarrow> f x)"

section \<open>Byte codec\<close>

text \<open>\<^verbatim>\<open>bytes[i]\<close> for a \<^verbatim>\<open>size_t i\<close>: defined only below \<^verbatim>\<open>bytes.size()\<close>.\<close>

definition at :: "byte list \<Rightarrow> size_t \<Rightarrow> error + byte" where
  "at bytes i = (if unat i < length bytes then Inr (bytes ! unat i) else Inl OutOfBoundsRead)"

text \<open>
  \<^verbatim>\<open>bytesToUInt32\<close> and \<^verbatim>\<open>bytesToUInt16\<close> (lines 29-42). The guard is
  \<^verbatim>\<open>if (offset + 4 > bytes.size()) return 0;\<close> and its sum \<open>offset + 4\<close> is computed in
  \<^verbatim>\<open>size_t\<close>, where it wraps.
\<close>

definition bytesToUInt32 :: "byte list \<Rightarrow> size_t \<Rightarrow> error + u32" where
  "bytesToUInt32 bytes offset =
     (if unat (offset + 4) > length bytes then Inr 0
      else bindE (at bytes offset) (\<lambda>b0.
           bindE (at bytes (offset + 1)) (\<lambda>b1.
           bindE (at bytes (offset + 2)) (\<lambda>b2.
           bindE (at bytes (offset + 3)) (\<lambda>b3.
             Inr (push_bit 24 (ucast b0) OR push_bit 16 (ucast b1)
                  OR push_bit 8 (ucast b2) OR ucast b3))))))"

definition bytesToUInt16 :: "byte list \<Rightarrow> size_t \<Rightarrow> error + u16" where
  "bytesToUInt16 bytes offset =
     (if unat (offset + 2) > length bytes then Inr 0
      else bindE (at bytes offset) (\<lambda>b0.
           bindE (at bytes (offset + 1)) (\<lambda>b1.
             Inr (push_bit 8 (ucast b0) OR ucast b1))))"

definition uint32ToBytes :: "u32 \<Rightarrow> byte list" where
  "uint32ToBytes v =
     [ucast (drop_bit 24 v AND 0xFF), ucast (drop_bit 16 v AND 0xFF),
      ucast (drop_bit 8 v AND 0xFF), ucast (v AND 0xFF)]"

definition uint16ToBytes :: "u16 \<Rightarrow> byte list" where
  "uint16ToBytes v = [ucast (drop_bit 8 v AND 0xFF), ucast (v AND 0xFF)]"

section \<open>Pattern scanner\<close>

text \<open>
  The inner loop of \<^verbatim>\<open>simpleSearch\<close> (lines 63-81): compare \<open>pattern\<close> with \<open>text\<close> at \<open>i\<close>, from
  index \<open>j\<close> on, stopping at the first difference. It is entered only with
  \<open>i + length pattern \<le> length text\<close>, so every \<open>text ! (i + j)\<close> is inside the vector.
\<close>

function matchAt :: "byte list \<Rightarrow> byte list \<Rightarrow> nat \<Rightarrow> nat \<Rightarrow> bool" where
  "matchAt text pattern i j =
     (if j < length pattern
      then (if text ! (i + j) \<noteq> pattern ! j then False
            else matchAt text pattern i (j + 1))
      else True)"
  by pat_completeness auto
termination
  by (relation "measure (\<lambda>(text, pattern, i, j). length pattern - j)") auto

text \<open>
  The outer loop, from index \<open>i\<close> with the matches found so far. After a match,
  \<^verbatim>\<open>i += pattern.size() - 1\<close> and the loop's \<^verbatim>\<open>i++\<close> follow. The loop runs only for a
  non-empty pattern that is no longer than the text, so neither subtraction wraps.
\<close>

function searchLoop :: "byte list \<Rightarrow> byte list \<Rightarrow> nat \<Rightarrow> nat list \<Rightarrow> nat list" where
  "searchLoop text pattern i result =
     (if i \<le> length text - length pattern
      then (if matchAt text pattern i 0
            then searchLoop text pattern (i + (length pattern - 1) + 1) (result @ [i])
            else searchLoop text pattern (i + 1) result)
      else result)"
  by pat_completeness auto
termination
  by (relation "measure (\<lambda>(text, pattern, i, result). Suc (length text - length pattern) - i)")
     auto

definition simpleSearch :: "byte list \<Rightarrow> byte list \<Rightarrow> nat list" where
  "simpleSearch text pattern =
     (if pattern = [] \<or> length text < length pattern then []
      else searchLoop text pattern 0 [])"

section \<open>The input stream\<close>

text \<open>
  \<^verbatim>\<open>std::istream\<close> over a file opened in binary mode: the bytes, the read position, the
  state flags \<^verbatim>\<open>eofbit\<close> and \<^verbatim>\<open>failbit\<close> and the count of the last unformatted read.
  Device errors (\<^verbatim>\<open>badbit\<close>) do not occur in the model. \<open>seek_bounded\<close> says whether the
  stream buffer refuses a position past the end of the data: \<^verbatim>\<open>std::filebuf\<close> positions
  with \<^verbatim>\<open>fseek\<close>, which accepts such a position, so a stream opened on a file has
  \<open>seek_bounded = False\<close>; a \<^verbatim>\<open>std::stringbuf\<close> refuses it.
\<close>

record istream =
  content :: "byte list"
  gpos :: nat
  eofbit :: bool
  failbit :: bool
  gcount :: nat
  seek_bounded :: bool

definition good :: "istream \<Rightarrow> bool" where
  "good s = (\<not> eofbit s \<and> \<not> failbit s)"

text \<open>\<^verbatim>\<open>!stream\<close> is \<^verbatim>\<open>stream.fail()\<close>.\<close>

definition fail :: "istream \<Rightarrow> bool" where
  "fail s = failbit s"

definition clear :: "istream \<Rightarrow> istream" where
  "clear s = s\<lparr>eofbit := False, failbit := False\<rparr>"

text \<open>
  \<^verbatim>\<open>tellg()\<close>: the sentry sets \<^verbatim>\<open>failbit\<close> on a stream that is not good; the result is
  \<open>None\<close> (\<^verbatim>\<open>pos_type(-1)\<close>) when the stream has failed.
\<close>

definition tellg :: "istream \<Rightarrow> nat option \<times> istream" where
  "tellg s = (if good s then (Some (gpos s), s) else (None, s\<lparr>failbit := True\<rparr>))"

text \<open>
  \<^verbatim>\<open>read(buf, n)\<close>: on a stream that is not good nothing is read and \<^verbatim>\<open>failbit\<close> is set;
  otherwise the bytes up to the end of the data are delivered, and a short read sets
  \<^verbatim>\<open>eofbit\<close> and \<^verbatim>\<open>failbit\<close>. The result is the bytes stored into the buffer.
\<close>

definition read :: "istream \<Rightarrow> nat \<Rightarrow> byte list \<times> istream" where
  "read s n =
     (if \<not> good s then ([], s\<lparr>failbit := True, gcount := 0\<rparr>)
      else let got = take n (drop (gpos s) (content s));
               s' = s\<lparr>gpos := gpos s + length got, gcount := length got\<rparr>
           in if length got < n then (got, s'\<lparr>eofbit := True, failbit := True\<rparr>)
              else (got, s'))"

text \<open>The buffer after a read: the bytes read over the buffer's old contents.\<close>

definition stored :: "byte list \<Rightarrow> byte list \<Rightarrow> byte list" where
  "stored buf got = got @ drop (length got) buf"

text \<open>
  \<^verbatim>\<open>seekg(pos)\<close> and \<^verbatim>\<open>seekg(off, std::ios::cur)\<close> with \<open>off \<ge> 0\<close>: \<^verbatim>\<open>eofbit\<close> is cleared
  first; a failed stream is left alone; a refused position sets \<^verbatim>\<open>failbit\<close>.
\<close>

definition seekg :: "istream \<Rightarrow> nat \<Rightarrow> istream" where
  "seekg s p =
     (let s' = s\<lparr>eofbit := False\<rparr>
      in if failbit s' then s'
         else if seek_bounded s' \<and> length (content s') < p then s'\<lparr>failbit := True\<rparr>
         else s'\<lparr>gpos := p\<rparr>)"

definition seekg_cur :: "istream \<Rightarrow> nat \<Rightarrow> istream" where
  "seekg_cur s off = seekg s (gpos s + off)"

text \<open>\<^verbatim>\<open>std::ifstream file(inputFile, std::ios::binary)\<close> on a file with the given bytes.\<close>

definition ifstream :: "byte list \<Rightarrow> istream" where
  "ifstream bytes =
     \<lparr>content = bytes, gpos = 0, eofbit = False, failbit = False, gcount = 0,
      seek_bounded = False\<rparr>"

section \<open>Track name extractor\<close>

text \<open>\<^verbatim>\<open>std::to_string\<close> of a non-negative integer: its decimal digits.\<close>

definition digit :: "nat \<Rightarrow> char" where
  "digit d = char_of (48 + d)"

function to_string :: "nat \<Rightarrow> string" where
  "to_string n = (if n < 10 then [digit n] else to_string (n div 10) @ [digit (n mod 10)])"
  by pat_completeness auto
termination
  by (relation "measure (\<lambda>n. n)") auto

declare to_string.simps [simp del]

text \<open>\<^verbatim>\<open>static_cast<char>\<close> of a byte.\<close>

definition to_char :: "byte \<Rightarrow> char" where
  "to_char b = char_of (unat b)"

text \<open>
  Allocation in \<^verbatim>\<open>extractTrackName\<close>: \<open>buffer_ok\<close> says whether
  \<^verbatim>\<open>searchBuffer.resize(searchSize)\<close> succeeds (its \<^verbatim>\<open>std::bad_alloc\<close> is caught by the
  function), \<open>strings_ok\<close> whether the vectors and strings built for the search (the
  pattern of line 110 first) can be allocated; their \<^verbatim>\<open>std::bad_alloc\<close> leaves the
  function. The fallback name \<^verbatim>\<open>"Track " + std::to_string(trackNumber)\<close> has at most 11
  characters and is built in the string's own storage, without allocation.
\<close>

record heap =
  buffer_ok :: bool
  strings_ok :: bool

definition MAX_SEARCH_SIZE :: nat where
  "MAX_SEARCH_SIZE = 1024"

definition fallbackName :: "nat \<Rightarrow> string" where
  "fallbackName trackNumber = ''Track '' @ to_string trackNumber"

text \<open>
  The loop \<^verbatim>\<open>for (auto matchPos : matches)\<close>: \<open>Some\<close> is the \<^verbatim>\<open>return trackName\<close> inside
  the loop, \<open>None\<close> is leaving the loop.
\<close>

fun nameLoop :: "byte list \<Rightarrow> nat list \<Rightarrow> string option" where
  "nameLoop searchBuffer [] = None"
| "nameLoop searchBuffer (matchPos # rest) =
     (let nameIndex = matchPos + 2 in
      if nameIndex + 1 < length searchBuffer
      then (let nameLength = unat (searchBuffer ! nameIndex) in
            if nameIndex + 1 + nameLength \<le> length searchBuffer
            then (let trackName =
                        map (\<lambda>i. to_char (searchBuffer ! (nameIndex + 1 + i))) [0..<nameLength]
                  in if trackName \<noteq> [] then Some trackName
                     else nameLoop searchBuffer rest)
            else nameLoop searchBuffer rest)
      else nameLoop searchBuffer rest)"

text \<open>
  \<^verbatim>\<open>extractTrackName\<close> (lines 84-132). The three early returns give the fallback name;
  past them the stream is rewound before the pattern vector is allocated, so a failing
  allocation raises \<open>BadAlloc\<close> with the stream rewound.
\<close>

definition extractTrackName :: "heap \<Rightarrow> istream \<Rightarrow> nat \<Rightarrow> u32 \<Rightarrow> (error + string) \<times> istream" where
  "extractTrackName h stream trackNumber trackSize =
     (let searchSize = min (unat trackSize) MAX_SEARCH_SIZE in
      if \<not> buffer_ok h then (Inr (fallbackName trackNumber), stream)
      else case tellg stream of
        (None, s1) \<Rightarrow> (Inr (fallbackName trackNumber), s1)
      | (Some currentPos, s1) \<Rightarrow>
          (case read s1 searchSize of (got, s2) \<Rightarrow>
             if fail s2 then (Inr (fallbackName trackNumber), seekg (clear s2) currentPos)
             else let searchBuffer = stored (replicate searchSize 0) got;
                      s3 = clear (seekg s2 currentPos)
                  in if \<not> strings_ok h then (Inl BadAlloc, s3)
                     else let matches = simpleSearch searchBuffer [0xFF, 0x03]
                          in (case nameLoop searchBuffer matches of
                                Some trackName \<Rightarrow> (Inr trackName, s3)
                              | None \<Rightarrow> (Inr (fallbackName trackNumber), s3))))"

section \<open>Output files\<close>

text \<open>
  The operating system takes a path as a C string, which ends at the first NUL
  character: \<open>native\<close> is the path it sees. A track name is raw bytes of the input, so
  a file name can hold a NUL.
\<close>

definition cstr :: "string \<Rightarrow> string" where
  "cstr s = takeWhile (\<lambda>c. c \<noteq> CHR 0x00) s"

definition native :: "path \<Rightarrow> path" where
  "native p =
     (if CHR 0x00 \<in> set (fst p) then (cstr (fst p), []) else (fst p, cstr (snd p)))"

text \<open>
  The output directory, by native paths: the files that exist with their bytes, which
  paths the operating system lets the program create, and for which paths the query of
  the file status fails. \<^verbatim>\<open>std::ofstream\<close> is the native path it was opened on and its
  failure flag; bytes written reach the file (the stream is flushed when it is closed
  or destroyed). A write on an open stream succeeds in the model.
\<close>

record filesystem =
  files :: "path \<rightharpoonup> byte list"
  creatable :: "path \<Rightarrow> bool"
  status_fails :: "path \<Rightarrow> bool"

record ofstream =
  opath :: path
  ofail :: bool

text \<open>\<^verbatim>\<open>fs::exists(p)\<close>: raises when the status of the path cannot be queried.\<close>

definition exists :: "filesystem \<Rightarrow> path \<Rightarrow> error + bool" where
  "exists fs p =
     (if status_fails fs (native p) then Inl (FilesystemError p)
      else Inr (files fs (native p) \<noteq> None))"

text \<open>\<^verbatim>\<open>std::ofstream outFile(outputPath, std::ios::binary)\<close>: creates or truncates.\<close>

definition open_ofstream :: "filesystem \<Rightarrow> path \<Rightarrow> ofstream \<times> filesystem" where
  "open_ofstream fs p =
     (if creatable fs (native p)
      then (\<lparr>opath = native p, ofail = False\<rparr>, fs\<lparr>files := (files fs)(native p \<mapsto> [])\<rparr>)
      else (\<lparr>opath = native p, ofail = True\<rparr>, fs))"

definition owrite :: "ofstream \<Rightarrow> filesystem \<Rightarrow> byte list \<Rightarrow> ofstream \<times> filesystem" where
  "owrite out fs bytes =
     (if ofail out then (out, fs)
      else (out, fs\<lparr>files := (files fs)(opath out \<mapsto>
                  (case files fs (opath out) of None \<Rightarrow> [] | Some old \<Rightarrow> old) @ bytes)\<rparr>))"

section \<open>Track writer helpers\<close>

text \<open>The characters \<^verbatim>\<open><>:"/\|?*\<close>, each replaced in turn by an underscore.\<close>

definition invalid :: string where
  "invalid = ''<>:'' @ [CHR 0x22] @ ''/'' @ [CHR 0x5C] @ ''|?*''"

definition getSafeFilename :: "string \<Rightarrow> string" where
  "getSafeFilename name =
     fold (\<lambda>c safe. map (\<lambda>x. if x = c then CHR ''_'' else x) safe) invalid name"

definition BUFFER_SIZE :: nat where
  "BUFFER_SIZE = 4096"

text \<open>
  \<^verbatim>\<open>copyStream\<close> (lines 145-162): the loop \<^verbatim>\<open>while (size > 0)\<close>, with its two
  \<^verbatim>\<open>break\<close>s and its \<^verbatim>\<open>throw\<close>.
\<close>

function copyStream ::
  "istream \<Rightarrow> ofstream \<Rightarrow> filesystem \<Rightarrow> nat \<Rightarrow> (error + unit) \<times> istream \<times> filesystem" where
  "copyStream inp out fs sz =
     (if sz > 0
      then (case read inp (min sz BUFFER_SIZE) of (got, in1) \<Rightarrow>
              if gcount in1 = 0 then (Inr (), in1, fs)
              else (case owrite out fs got of (out1, fs1) \<Rightarrow>
                      if ofail out1 then (Inl OutputWriteError, in1, fs1)
                      else if eofbit in1 then (Inr (), in1, fs1)
                      else copyStream in1 out1 fs1 (sz - gcount in1)))
      else (Inr (), inp, fs))"
  by pat_completeness auto
termination
  by (relation "measure (\<lambda>(inp, out, fs, sz). sz)") auto

section \<open>Container reader\<close>

record TrackInfo =
  number :: nat
  name :: string
  size_bytes :: u32
  position :: nat

definition MThd :: "byte list" where
  "MThd = [0x4D, 0x54, 0x68, 0x64]"

definition MTrk :: "byte list" where
  "MTrk = [0x4D, 0x54, 0x72, 0x6B]"

text \<open>
  The \<^verbatim>\<open>try\<close>/\<^verbatim>\<open>catch (...)\<close> around \<^verbatim>\<open>extractTrackName\<close> in the track loop, for the
  track with loop index \<open>i\<close>.
\<close>

definition nameOrDefault :: "nat \<Rightarrow> error + string \<Rightarrow> string" where
  "nameOrDefault i r =
     (case r of
        Inr trackName \<Rightarrow> trackName
      | Inl e \<Rightarrow> if i = 0 then ''Tempo Track'' else ''Track '' @ to_string (i + 1))"

text \<open>
  The loop \<^verbatim>\<open>for (uint16_t i = 0; i < totalTracks; i++)\<close> (lines 244-292). The index
  stays below \<open>totalTracks \<le> 65535\<close>, so \<open>i + 1\<close> fits \<^verbatim>\<open>uint16_t\<close>.
\<close>

function trackLoop ::
  "heap \<Rightarrow> nat \<Rightarrow> nat \<Rightarrow> istream \<Rightarrow> TrackInfo list \<Rightarrow> (error + TrackInfo list) \<times> istream" where
  "trackLoop h totalTracks i file tracks =
     (if i < totalTracks
      then (case tellg file of
              (None, f1) \<Rightarrow> (Inl (InvalidFilePosition (i + 1)), f1)
            | (Some trackStartPos, f1) \<Rightarrow>
                (case read f1 8 of (got, f2) \<Rightarrow>
                   let trackHeader = stored (replicate 8 0) got in
                   if fail f2 \<or> gcount f2 \<noteq> 8 then (Inl (TrackHeaderReadError (i + 1)), f2)
                   else if take 4 trackHeader \<noteq> MTrk then (Inl (InvalidTrackHeader (i + 1)), f2)
                   else (case bytesToUInt32 trackHeader 4 of
                           Inl e \<Rightarrow> (Inl e, f2)
                         | Inr trackSize \<Rightarrow>
                             (case extractTrackName h f2 (i + 1) trackSize of (r, f3) \<Rightarrow>
                                let track = \<lparr>number = i + 1, name = nameOrDefault i r,
                                             size_bytes = trackSize, position = trackStartPos\<rparr>;
                                    f4 = seekg_cur f3 (unat trackSize)
                                in if fail f4 then (Inl (SeekNextTrackError (i + 1)), f4)
                                   else trackLoop h totalTracks (i + 1) f4 (tracks @ [track])))))
      else (Inr tracks, file))"
  by pat_completeness auto
termination
  by (relation "measure (\<lambda>(h, totalTracks, i, file, tracks). totalTracks - i)") auto

text \<open>
  The header checks of \<^verbatim>\<open>splitMIDIFile\<close> on the opened file (lines 213-236): the track
  count and the division bytes, or the exception.
\<close>

definition readHeader :: "istream \<Rightarrow> (error + u16 \<times> byte list) \<times> istream" where
  "readHeader file =
     (case read file 14 of (got, f1) \<Rightarrow>
        let headerData = stored (replicate 14 0) got in
        if fail f1 \<or> gcount f1 \<noteq> 14 then (Inl HeaderReadError, f1)
        else if take 4 headerData \<noteq> MThd then (Inl MissingMThd, f1)
        else (case bytesToUInt32 headerData 4 of
                Inl e \<Rightarrow> (Inl e, f1)
              | Inr headerSize \<Rightarrow>
                  if headerSize \<noteq> 6 then (Inl InvalidHeaderSize, f1)
                  else (case bytesToUInt16 headerData 8 of
                          Inl e \<Rightarrow> (Inl e, f1)
                        | Inr format \<Rightarrow>
                            if format \<noteq> 1 then (Inl NotFormat1, f1)
                            else (case bytesToUInt16 headerData 10 of
                                    Inl e \<Rightarrow> (Inl e, f1)
                                  | Inr totalTracks \<Rightarrow>
                                      (Inr (totalTracks, drop 12 headerData), f1)))))"

section \<open>Track writer\<close>

text \<open>
  The loop \<^verbatim>\<open>while (fs::exists(outputPath))\<close> (lines 333-335). Its body assigns
  \<open>outputFile\<close> only: \<open>outputPath\<close> and \<open>counter\<close> are updated after the loop (lines
  336-337). The result is \<open>outputFile\<close> when the loop is left, the exception of
  \<^verbatim>\<open>fs::exists\<close> when it raises, and \<open>None\<close> when the loop is never left.
\<close>

partial_function (option) collisionLoop ::
  "filesystem \<Rightarrow> path \<Rightarrow> string \<Rightarrow> string \<Rightarrow> nat \<Rightarrow> string \<Rightarrow> (error + string) option"
  where
  "collisionLoop fs outputPath baseName safeTrackName counter outputFile =
     (case exists fs outputPath of
        Inl e \<Rightarrow> Some (Inl e)
      | Inr found \<Rightarrow>
          if found
          then collisionLoop fs outputPath baseName safeTrackName counter
                 (baseName @ '' - '' @ safeTrackName @ '' (Copy '' @ to_string counter @ '').mid'')
          else Some (Inr outputFile))"

text \<open>
  The loop \<^verbatim>\<open>for (const auto& track : tracks)\<close> (lines 321-364) with the number of
  files written so far. \<^verbatim>\<open>8 + track.size\<close> is computed in \<^verbatim>\<open>uint32_t\<close>.
\<close>

fun writeTracks ::
  "byte list \<Rightarrow> string \<Rightarrow> string \<Rightarrow> TrackInfo list \<Rightarrow> istream \<Rightarrow> filesystem \<Rightarrow> nat \<Rightarrow>
   ((error + nat) \<times> filesystem) option" where
  "writeTracks outputHeader baseName outputDir [] file fs splitCount = Some (Inr splitCount, fs)"
| "writeTracks outputHeader baseName outputDir (track # rest) file fs splitCount =
     (let safeTrackName = getSafeFilename (name track);
          outputFile = baseName @ '' - '' @ safeTrackName @ ''.mid'';
          outputPath = (outputDir, outputFile)
      in case collisionLoop fs outputPath baseName safeTrackName 1 outputFile of
           None \<Rightarrow> None
         | Some (Inl e) \<Rightarrow> Some (Inl e, fs)
         | Some (Inr outputFile') \<Rightarrow>
             (let outputPath' = (outputDir, outputFile') in
              case open_ofstream fs outputPath' of (outFile, fs1) \<Rightarrow>
                if ofail outFile then Some (Inl (CannotCreateOutput outputPath'), fs1)
                else (case owrite outFile fs1 outputHeader of (outFile1, fs2) \<Rightarrow>
                        if ofail outFile1 then Some (Inl (HeaderWriteError outputPath'), fs2)
                        else (let f1 = seekg (clear file) (position track) in
                              if fail f1 then Some (Inl (SeekTrackError (number track)), fs2)
                              else (case copyStream f1 outFile1 fs2
                                           (unat (8 + size_bytes track)) of
                                      (Inl e, f2, fs3) \<Rightarrow> Some (Inl e, fs3)
                                    | (Inr u, f2, fs3) \<Rightarrow>
                                        writeTracks outputHeader baseName outputDir rest f2 fs3
                                          (splitCount + 1))))))"

text \<open>
  The reading half of \<^verbatim>\<open>splitMIDIFile\<close>: the header checks, then the track loop. The
  result is the division bytes and the track table, or the exception.
\<close>

definition readTracks ::
  "heap \<Rightarrow> istream \<Rightarrow> (error + byte list \<times> TrackInfo list) \<times> istream" where
  "readTracks h file =
     (case readHeader file of
        (Inl e, f1) \<Rightarrow> (Inl e, f1)
      | (Inr (totalTracks, division), f1) \<Rightarrow>
          (case trackLoop h (unat totalTracks) 0 f1 [] of
             (Inl e, f2) \<Rightarrow> (Inl e, f2)
           | (Inr tracks, f2) \<Rightarrow> (Inr (division, tracks), f2)))"

text \<open>
  \<^verbatim>\<open>splitMIDIFile\<close>: \<open>input\<close> is the content of the input file (\<open>None\<close> when it cannot be
  opened), \<open>baseName\<close> the stem of its path. The result is the number of files written or
  the exception, with the output directory as it is left; \<open>None\<close> when the call does not
  return.
\<close>

definition splitMIDIFile ::
  "heap \<Rightarrow> byte list option \<Rightarrow> string \<Rightarrow> string \<Rightarrow> filesystem \<Rightarrow>
   ((error + nat) \<times> filesystem) option" where
  "splitMIDIFile h input baseName outputDir fs =
     (case input of
        None \<Rightarrow> Some (Inl CannotOpenFile, fs)
      | Some bytes \<Rightarrow>
          (case readTracks h (ifstream bytes) of
             (Inl e, f2) \<Rightarrow> Some (Inl e, fs)
           | (Inr (division, tracks), f2) \<Rightarrow>
               (let outputHeader =
                      MThd @ uint32ToBytes 6 @ uint16ToBytes 1 @ uint16ToBytes 1 @ division
                in writeTracks outputHeader baseName outputDir tracks f2 fs 0)))"

section \<open>Notions of the specification\<close>

text \<open>The needle occurs in the haystack at offset \<open>p\<close>.\<close>

definition occursAt :: "byte list \<Rightarrow> byte list \<Rightarrow> nat \<Rightarrow> bool" where
  "occursAt haystack needle p = (take (length needle) (drop p haystack) = needle)"

text \<open>
  \<open>findAll\<close> as the specification words it: a left-to-right scan that, after a match at
  \<open>p\<close>, resumes at \<open>p + len(needle)\<close>, and otherwise moves one offset on; empty for an empty
  needle and for a needle longer than the haystack.
\<close>

function scanFrom :: "byte list \<Rightarrow> byte list \<Rightarrow> nat \<Rightarrow> nat list" where
  "scanFrom haystack needle p =
     (if needle = [] \<or> length haystack < p + length needle then []
      else if occursAt haystack needle p then p # scanFrom haystack needle (p + length needle)
      else scanFrom haystack needle (p + 1))"
  by pat_completeness auto
termination
  by (relation "measure (\<lambda>(haystack, needle, p). Suc (length haystack) - p)")
     (auto simp: length_greater_0_conv [symmetric] simp del: length_greater_0_conv)

definition findAll :: "byte list \<Rightarrow> byte list \<Rightarrow> nat list" where
  "findAll haystack needle =
     (if needle = [] \<or> length haystack < length needle then [] else scanFrom haystack needle 0)"


text \<open>The track-name marker \<open>{0xFF, 0x03}\<close> and where it stands in a window \<open>w\<close>.\<close>

definition marker :: "byte list" where
  "marker = [0xFF, 0x03]"

definition markerAt :: "byte list \<Rightarrow> nat \<Rightarrow> bool" where
  "markerAt w p = (p + 1 < length w \<and> w ! p = 0xFF \<and> w ! (p + 1) = 0x03)"

text \<open>The one-byte length \<open>L\<close> after the marker at \<open>p\<close>.\<close>

definition nameLength :: "byte list \<Rightarrow> nat \<Rightarrow> nat" where
  "nameLength w p = unat (w ! (p + 2))"

text \<open>\<open>L\<close> is not zero and the \<open>L\<close> bytes after it lie inside the window.\<close>

definition accepts :: "byte list \<Rightarrow> nat \<Rightarrow> bool" where
  "accepts w p = (0 < nameLength w p \<and> p + 3 + nameLength w p \<le> length w)"

text \<open>
  A usable name at \<open>p\<close>: the marker, its length byte \<open>L > 0\<close> and \<open>L\<close> bytes, all inside
  the window; \<open>nameAt\<close> is the text of those \<open>L\<close> bytes.
\<close>

definition usableAt :: "byte list \<Rightarrow> nat \<Rightarrow> bool" where
  "usableAt w p =
     (markerAt w p \<and> p + 2 < length w \<and> 0 < nameLength w p
      \<and> p + 3 + nameLength w p \<le> length w)"

definition nameAt :: "byte list \<Rightarrow> nat \<Rightarrow> string" where
  "nameAt w p = map to_char (take (nameLength w p) (drop (p + 3) w))"

text \<open>The first \<open>min(declared_length, 1024)\<close> bytes of the track at the read position.\<close>

definition window :: "istream \<Rightarrow> u32 \<Rightarrow> byte list" where
  "window stream trackSize =
     take (min (unat trackSize) 1024) (drop (gpos stream) (content stream))"

text \<open>The bytes \<open>{0xFF, 0x03, 0x04, 'B', 'a', 's', 's'}\<close>.\<close>

definition bassEvent :: "byte list" where
  "bassEvent = [0xFF, 0x03, 0x04, 0x42, 0x61, 0x73, 0x73]"

text \<open>
  The name of the output file of a track, the native path of that file, and the bytes
  of a file at the recorded start of a track: its 8-byte chunk header and its
  declared-length payload.
\<close>

definition outName :: "string \<Rightarrow> TrackInfo \<Rightarrow> string" where
  "outName baseName track = baseName @ '' - '' @ getSafeFilename (name track) @ ''.mid''"

definition outPath :: "string \<Rightarrow> string \<Rightarrow> TrackInfo \<Rightarrow> path" where
  "outPath outputDir baseName track = native (outputDir, outName baseName track)"

definition chunkAt :: "byte list \<Rightarrow> TrackInfo \<Rightarrow> byte list" where
  "chunkAt bytes track = take (8 + unat (size_bytes track)) (drop (position track) bytes)"

text \<open>
  A track chunk of an input file, given by its length field and its payload: valid
  when the field has 4 bytes that declare the length of the payload.
\<close>

definition chunkBytes :: "byte list \<times> byte list \<Rightarrow> byte list" where
  "chunkBytes c = MTrk @ fst c @ snd c"

definition validChunk :: "byte list \<times> byte list \<Rightarrow> bool" where
  "validChunk c =
     (length (fst c) = 4 \<and> length (snd c) < 2 ^ 32
      \<and> bytesToUInt32 (fst c) 0 = Inr (of_nat (length (snd c))))"

section \<open>Example inputs\<close>

definition heap_ok :: heap where
  "heap_ok = \<lparr>buffer_ok = True, strings_ok = True\<rparr>"

text \<open>
  An output directory without files, where every file can be created and every status
  query succeeds.
\<close>

definition empty_dir :: filesystem where
  "empty_dir = \<lparr>files = Map.empty, creatable = (\<lambda>p. True), status_fails = (\<lambda>p. False)\<rparr>"

text \<open>The same directory holding an empty file \<^verbatim>\<open>Song - Bass.mid\<close>.\<close>

definition bass_dir :: filesystem where
  "bass_dir =
     \<lparr>files = [(''out'', ''Song - Bass.mid'') \<mapsto> []], creatable = (\<lambda>p. True),
      status_fails = (\<lambda>p. False)\<rparr>"

text \<open>The header chunk of a Format-1 file with the given track count and 96 ticks.\<close>

definition header1 :: "byte \<Rightarrow> byte list" where
  "header1 n = MThd @ [0, 0, 0, 6, 0, 1, 0, n, 0, 0x60]"

text \<open>A track chunk of 4 bytes without a name: only the end-of-track event.\<close>

definition unnamedTrack :: "byte list" where
  "unnamedTrack = MTrk @ [0, 0, 0, 4, 0x00, 0xFF, 0x2F, 0x00]"

text \<open>A track chunk of 12 bytes named \<^verbatim>\<open>Bass\<close>.\<close>

definition bassTrack :: "byte list" where
  "bassTrack = MTrk @ [0, 0, 0, 12, 0x00] @ bassEvent @ [0x00, 0xFF, 0x2F, 0x00]"

text \<open>A track chunk that declares 100 bytes and holds 4.\<close>

definition shortTrack :: "byte list" where
  "shortTrack = MTrk @ [0, 0, 0, 100, 0x00, 0xFF, 0x2F, 0x00]"

section \<open>The pattern scanner finds what the specification's scan finds\<close>

declare matchAt.simps [simp del] searchLoop.simps [simp del] scanFrom.simps [simp del]

lemma matchAt_iff:
  "matchAt tx pattern i j \<longleftrightarrow> (\<forall>k. j \<le> k \<and> k < length pattern \<longrightarrow> tx ! (i + k) = pattern ! k)"
proof (induction tx pattern i j rule: matchAt.induct)
  case (1 tx pattern i j)
  show ?case
  proof (cases "j < length pattern")
    case False
    then show ?thesis by (subst matchAt.simps) auto
  next
    case True
    show ?thesis
    proof (cases "tx ! (i + j) = pattern ! j")
      case False
      with True show ?thesis by (subst matchAt.simps) auto
    next
      case eq: True
      have "matchAt tx pattern i j = matchAt tx pattern i (j + 1)"
        using True eq by (subst matchAt.simps) simp
      also have "\<dots> \<longleftrightarrow> (\<forall>k. j + 1 \<le> k \<and> k < length pattern \<longrightarrow> tx ! (i + k) = pattern ! k)"
        using "1.IH" True eq by simp
      also have "\<dots> \<longleftrightarrow> (\<forall>k. j \<le> k \<and> k < length pattern \<longrightarrow> tx ! (i + k) = pattern ! k)"
        using eq by (metis Suc_eq_plus1 Suc_leI le_neq_implies_less Suc_leD)
      finally show ?thesis .
    qed
  qed
qed

lemma matchAt_occursAt:
  assumes "i + length pattern \<le> length tx"
  shows "matchAt tx pattern i 0 = occursAt tx pattern i"
proof -
  have "occursAt tx pattern i \<longleftrightarrow> (\<forall>k<length pattern. tx ! (i + k) = pattern ! k)"
    using assms by (auto simp: occursAt_def list_eq_iff_nth_eq)
  then show ?thesis by (simp add: matchAt_iff)
qed

lemma searchLoop_scanFrom:
  assumes "pattern \<noteq> []" "length pattern \<le> length tx"
  shows "searchLoop tx pattern i acc = acc @ scanFrom tx pattern i"
  using assms
proof (induction tx pattern i acc rule: searchLoop.induct)
  case (1 tx pattern i result)
  show ?case
  proof (cases "i \<le> length tx - length pattern")
    case False
    with 1(3,4) show ?thesis
      by (subst searchLoop.simps, subst scanFrom.simps) auto
  next
    case True
    with 1(4) have fit: "i + length pattern \<le> length tx" by simp
    show ?thesis
    proof (cases "matchAt tx pattern i 0")
      case m: True
      have "searchLoop tx pattern i result
              = searchLoop tx pattern (i + (length pattern - 1) + 1) (result @ [i])"
        using True m by (subst searchLoop.simps) simp
      also have "\<dots> = (result @ [i]) @ scanFrom tx pattern (i + (length pattern - 1) + 1)"
        using "1.IH"(1) [OF True m] 1(3,4) by simp
      also have "i + (length pattern - 1) + 1 = i + length pattern"
        using 1(3) by (cases pattern) auto
      finally show ?thesis
        using fit m 1(3) matchAt_occursAt [OF fit]
        by (subst scanFrom.simps) auto
    next
      case m: False
      have "searchLoop tx pattern i result = searchLoop tx pattern (i + 1) result"
        using True m by (subst searchLoop.simps) simp
      also have "\<dots> = result @ scanFrom tx pattern (i + 1)"
        using "1.IH"(2) [OF True m] 1(3,4) by simp
      finally show ?thesis
        using fit m 1(3) matchAt_occursAt [OF fit]
        by (subst scanFrom.simps) auto
    qed
  qed
qed

text \<open>
  Claim C8. \<^verbatim>\<open>simpleSearch\<close> returns the empty sequence when the needle is empty or
  longer than the haystack, and otherwise exactly the offsets of the specification's
  left-to-right scan, which resumes at \<open>p + len(needle)\<close> after a match at \<open>p\<close>.
\<close>

theorem simpleSearch_findAll:
  "(pattern = [] \<or> length tx < length pattern \<longrightarrow> simpleSearch tx pattern = [])
   \<and> simpleSearch tx pattern = findAll tx pattern"
  by (simp add: simpleSearch_def findAll_def searchLoop_scanFrom)

theorem simpleSearch_findAll_witness:
  "(([]::byte list) = [] \<or> length [1, 2 :: byte] < length ([]::byte list))
   \<and> simpleSearch [1, 2] [] = []
   \<and> simpleSearch [0, 0xFF, 0x03, 0xFF, 0x03, 7] [0xFF, 0x03] = [1, 3]"
proof -
  have "findAll [0, 0xFF, 0x03, 0xFF, 0x03, 7] [0xFF, 0x03] = [1, 3]"
    by code_simp
  then show ?thesis
    using simpleSearch_findAll [of "[]" "[1, 2]"]
          simpleSearch_findAll [of "[0xFF, 0x03]" "[0, 0xFF, 0x03, 0xFF, 0x03, 7]"]
    by simp
qed

text \<open>
  A needle that cannot overlap itself: the scan finds every occurrence. The marker is
  such a needle.
\<close>

lemma occursAt_short:
  assumes "needle \<noteq> []" "length haystack < q + length needle"
  shows "\<not> occursAt haystack needle q"
proof
  assume "occursAt haystack needle q"
  then have "length (take (length needle) (drop q haystack)) = length needle"
    by (simp add: occursAt_def)
  with assms show False by (cases needle) auto
qed

lemma scanFrom_filter:
  assumes "needle \<noteq> []"
    and "\<And>p k. occursAt haystack needle p \<Longrightarrow> 0 < k \<Longrightarrow> k < length needle
           \<Longrightarrow> \<not> occursAt haystack needle (p + k)"
  shows "scanFrom haystack needle i = filter (occursAt haystack needle) [i..<length haystack]"
  using assms
proof (induction haystack needle i rule: scanFrom.induct)
  case (1 haystack needle p)
  show ?case
  proof (cases "length haystack < p + length needle")
    case True
    have "filter (occursAt haystack needle) [p..<length haystack] = []"
      using True occursAt_short [OF 1(3)] by (auto simp: filter_empty_conv)
    with True show ?thesis by (subst scanFrom.simps) simp
  next
    case False
    then have lt: "p < length haystack" using 1(3) by (cases needle) auto
    have upt: "[p..<length haystack] = p # [Suc p..<length haystack]"
      using lt by (simp add: upt_conv_Cons)
    show ?thesis
    proof (cases "occursAt haystack needle p")
      case no: False
      have "scanFrom haystack needle p = scanFrom haystack needle (p + 1)"
        using False no 1(3) by (subst scanFrom.simps) simp
      also have "\<dots> = filter (occursAt haystack needle) [p + 1..<length haystack]"
        using "1.IH"(2) [OF _ no] False 1(3,4) by simp
      finally show ?thesis using no upt by simp
    next
      case yes: True
      have split: "[Suc p..<length haystack]
                     = [Suc p..<p + length needle] @ [p + length needle..<length haystack]"
      proof -
        have "Suc p \<le> p + length needle" using 1(3) by (cases needle) auto
        moreover have "p + length needle \<le> length haystack" using False by simp
        ultimately show ?thesis by (metis upt_add_eq_append le_Suc_ex)
      qed
      have none: "filter (occursAt haystack needle) [Suc p..<p + length needle] = []"
      proof -
        have "\<not> occursAt haystack needle q" if "Suc p \<le> q" "q < p + length needle" for q
        proof -
          from that obtain k where "q = p + k" "0 < k" "k < length needle"
            by (metis Suc_le_lessD add_less_cancel_left less_iff_Suc_add zero_less_Suc
                      add_Suc_right)
          with 1(4) [OF yes] show ?thesis by simp
        qed
        then show ?thesis by (auto simp: filter_empty_conv)
      qed
      have "scanFrom haystack needle p = p # scanFrom haystack needle (p + length needle)"
        using False yes 1(3) by (subst scanFrom.simps) simp
      also have "scanFrom haystack needle (p + length needle)
                   = filter (occursAt haystack needle) [p + length needle..<length haystack]"
        using "1.IH"(1) [OF _ yes] False 1(3,4) by simp
      finally show ?thesis using yes upt split none by simp
    qed
  qed
qed

lemma occursAt_marker: "occursAt w marker p = markerAt w p"
proof (cases "p + 2 \<le> length w")
  case False
  then have "\<not> occursAt w marker p"
    using occursAt_short [of marker w p] by (simp add: marker_def)
  with False show ?thesis by (auto simp: markerAt_def)
next
  case True
  then have "occursAt w marker p \<longleftrightarrow> (\<forall>k<2. w ! (p + k) = marker ! k)"
    by (auto simp: occursAt_def list_eq_iff_nth_eq marker_def)
  also have "\<dots> \<longleftrightarrow> w ! p = 0xFF \<and> w ! (p + 1) = 0x03"
    by (auto simp: marker_def less_2_cases_iff)
  finally show ?thesis using True by (auto simp: markerAt_def)
qed

lemma simpleSearch_marker:
  "simpleSearch w marker = filter (markerAt w) [0..<length w]"
proof (cases "length w < 2")
  case True
  then have "filter (markerAt w) [0..<length w] = []"
    by (auto simp: filter_empty_conv markerAt_def)
  with True show ?thesis by (simp add: simpleSearch_def marker_def)
next
  case False
  have "scanFrom w marker 0 = filter (occursAt w marker) [0..<length w]"
  proof (rule scanFrom_filter)
    show "marker \<noteq> []" by (simp add: marker_def)
  next
    fix p k
    assume "occursAt w marker p" "0 < k" "k < length marker"
    then have "k = 1" "w ! (p + 1) = 0x03"
      by (auto simp: marker_def occursAt_marker [unfolded marker_def] markerAt_def)
    then show "\<not> occursAt w marker (p + k)"
      by (auto simp: occursAt_marker markerAt_def)
  qed
  moreover have "occursAt w marker = markerAt w"
    by (rule ext) (rule occursAt_marker)
  moreover have "simpleSearch w marker = scanFrom w marker 0"
    using False searchLoop_scanFrom [of marker w 0 "[]"]
    by (simp add: simpleSearch_def marker_def)
  ultimately show ?thesis by simp
qed

text \<open>
  What the scan returns, said without the scan: every offset returned is an occurrence,
  consecutive offsets are at least the needle's length apart, and every occurrence
  starts inside a returned match.
\<close>

lemma scanFrom_sound:
  "p \<in> set (scanFrom hs nd i) \<Longrightarrow> occursAt hs nd p \<and> i \<le> p"
proof (induction hs nd i rule: scanFrom.induct)
  case (1 hs nd i)
  show ?case
  proof (cases "nd = [] \<or> length hs < i + length nd")
    case True
    with 1(3) show ?thesis by (subst (asm) scanFrom.simps) simp
  next
    case False
    show ?thesis
    proof (cases "occursAt hs nd i")
      case True
      with False 1(3) have "p = i \<or> p \<in> set (scanFrom hs nd (i + length nd))"
        by (subst (asm) scanFrom.simps) auto
      then show ?thesis
        using "1.IH"(1) [OF False True] True by auto
    next
      case no: False
      with False 1(3) have "p \<in> set (scanFrom hs nd (i + 1))"
        by (subst (asm) scanFrom.simps) auto
      then show ?thesis
        using "1.IH"(2) [OF False no] by auto
    qed
  qed
qed

lemma scanFrom_gaps:
  "sorted_wrt (\<lambda>p q. p + length nd \<le> q) (scanFrom hs nd i)"
proof (induction hs nd i rule: scanFrom.induct)
  case (1 hs nd i)
  show ?case
  proof (cases "nd = [] \<or> length hs < i + length nd")
    case True
    then show ?thesis by (subst scanFrom.simps) simp
  next
    case False
    show ?thesis
    proof (cases "occursAt hs nd i")
      case True
      have "scanFrom hs nd i = i # scanFrom hs nd (i + length nd)"
        using False True by (subst scanFrom.simps) simp
      then show ?thesis
        using "1.IH"(1) [OF False True] scanFrom_sound [of _ hs nd "i + length nd"] by auto
    next
      case no: False
      have "scanFrom hs nd i = scanFrom hs nd (i + 1)"
        using False no by (subst scanFrom.simps) simp
      then show ?thesis
        using "1.IH"(2) [OF False no] by simp
    qed
  qed
qed

lemma scanFrom_covers:
  assumes "occursAt hs nd q" "i \<le> q" "nd \<noteq> []"
  shows "\<exists>p\<in>set (scanFrom hs nd i). p \<le> q \<and> q < p + length nd"
  using assms
proof (induction hs nd i rule: scanFrom.induct)
  case (1 hs nd i)
  have fits: "\<not> length hs < q + length nd"
    using occursAt_short [OF 1(5), of hs q] 1(3) by blast
  then have False: "\<not> (nd = [] \<or> length hs < i + length nd)"
    using 1(4,5) by auto
  show ?case
  proof (cases "occursAt hs nd i")
    case True
    have eq: "scanFrom hs nd i = i # scanFrom hs nd (i + length nd)"
      using False True by (subst scanFrom.simps) simp
    show ?thesis
    proof (cases "q < i + length nd")
      case True
      with eq 1(4) show ?thesis by auto
    next
      case far: False
      then have "i + length nd \<le> q" by simp
      from "1.IH"(1) [OF False True 1(3) this 1(5)] eq show ?thesis by auto
    qed
  next
    case no: False
    have eq: "scanFrom hs nd i = scanFrom hs nd (i + 1)"
      using False no by (subst scanFrom.simps) simp
    have "q \<noteq> i" using no 1(3) by auto
    with 1(4) have "i + 1 \<le> q" by simp
    from "1.IH"(2) [OF False no 1(3) this 1(5)] eq show ?thesis by simp
  qed
qed

section \<open>Track name extraction\<close>

lemma to_string_nonempty: "to_string n \<noteq> []"
  by (subst to_string.simps) simp

lemma fallbackName_nonempty: "fallbackName n \<noteq> []"
  by (simp add: fallbackName_def)

lemma nameLoop_nonempty: "nameLoop w ms = Some s \<Longrightarrow> s \<noteq> []"
  by (induction ms) (auto simp: Let_def split: if_splits)

lemma extractTrackName_Inr_nonempty:
  "fst (extractTrackName h st n sz) = Inr s \<Longrightarrow> s \<noteq> []"
  by (auto simp: extractTrackName_def Let_def fallbackName_nonempty
           split: prod.splits option.splits if_splits dest: nameLoop_nonempty)

lemma extractTrackName_returns:
  "strings_ok h \<Longrightarrow> \<exists>s. fst (extractTrackName h st n sz) = Inr s"
  by (auto simp: extractTrackName_def Let_def split: prod.splits option.splits)

lemma extractTrackName_gpos: "gpos (snd (extractTrackName h st n sz)) = gpos st"
  by (auto simp: extractTrackName_def Let_def tellg_def read_def seekg_def clear_def fail_def
                 good_def
           split: prod.splits option.splits if_splits)

lemma read_full:
  assumes "good s" "gpos s + n \<le> length (content s)"
  shows "read s n = (take n (drop (gpos s) (content s)), s\<lparr>gpos := gpos s + n, gcount := n\<rparr>)"
  using assms by (auto simp: read_def Let_def)

lemma extractTrackName_stream:
  assumes "good s" "gpos s \<le> length (content s)"
  shows "good (snd (extractTrackName h s n sz))"
    "content (snd (extractTrackName h s n sz)) = content s"
    "seek_bounded (snd (extractTrackName h s n sz)) = seek_bounded s"
    "gpos (snd (extractTrackName h s n sz)) = gpos s"
  using assms
  by (auto simp: extractTrackName_def Let_def tellg_def read_def seekg_def clear_def fail_def
                 good_def
           split: prod.splits option.splits if_splits)

lemma map_nth_take_drop:
  assumes "n + k \<le> length w"
  shows "map (\<lambda>i. f (w ! (n + i))) [0..<k] = map f (take k (drop n w))"
  using assms by (auto intro!: nth_equalityI)

lemma nameLoop_find:
  "nameLoop w ms = map_option (nameAt w) (find (accepts w) ms)"
proof (induction ms)
  case Nil
  show ?case by simp
next
  case (Cons m ms)
  show ?case
  proof (cases "accepts w m")
    case True
    then have fit: "m + 3 + nameLength w m \<le> length w" and pos: "0 < nameLength w m"
      by (auto simp: accepts_def)
    have "map (\<lambda>i. to_char (w ! (m + 2 + 1 + i))) [0..<nameLength w m] = nameAt w m"
      using map_nth_take_drop [of "m + 3" "nameLength w m" w to_char] fit
      by (simp add: nameAt_def numeral_3_eq_3 add.commute add.left_commute)
    moreover have "nameAt w m \<noteq> []"
      using fit pos by (simp add: nameAt_def)
    ultimately show ?thesis
      using True fit pos by (simp add: Let_def nameLength_def)
  next
    case False
    then have "nameLoop w (m # ms) = nameLoop w ms"
      by (auto simp: Let_def accepts_def nameLength_def)
    with False Cons show ?thesis by simp
  qed
qed

lemma find_filter: "find Q (filter M xs) = find (\<lambda>x. M x \<and> Q x) xs"
  by (induction xs) auto

lemma find_upt_least:
  assumes "U p" "p < n" "\<And>q. q < p \<Longrightarrow> \<not> U q"
  shows "find U [0..<n] = Some p"
  using assms by (auto simp: find_Some_iff intro!: exI [of _ p])

lemma find_upt_none:
  assumes "\<And>q. q < n \<Longrightarrow> \<not> U q"
  shows "find U [0..<n] = None"
  using assms by (auto simp: find_None_iff)

lemma usableAt_alt: "usableAt w p \<longleftrightarrow> markerAt w p \<and> accepts w p"
  by (auto simp: usableAt_def accepts_def)

lemma extractTrackName_window:
  assumes "good stream" "buffer_ok h" "strings_ok h"
    and "gpos stream + min (unat trackSize) 1024 \<le> length (content stream)"
  shows "fst (extractTrackName h stream n trackSize) =
           Inr (case find (usableAt (window stream trackSize))
                       [0..<length (window stream trackSize)] of
                  Some p \<Rightarrow> nameAt (window stream trackSize) p
                | None \<Rightarrow> fallbackName n)"
proof -
  let ?ss = "min (unat trackSize) 1024"
  let ?w = "window stream trackSize"
  have len: "length ?w = ?ss"
    using assms(4) by (simp add: window_def)
  have rd: "read stream ?ss = (?w, stream\<lparr>gpos := gpos stream + ?ss, gcount := ?ss\<rparr>)"
    using assms(1,4) len by (auto simp: read_def window_def Let_def)
  have st: "stored (replicate ?ss 0) ?w = ?w"
    using len by (simp add: stored_def)
  have search: "simpleSearch ?w [0xFF, 0x03] = filter (markerAt ?w) [0..<length ?w]"
    using simpleSearch_marker [of ?w] by (simp add: marker_def)
  have "nameLoop ?w (filter (markerAt ?w) [0..<length ?w])
          = map_option (nameAt ?w) (find (usableAt ?w) [0..<length ?w])"
    by (simp add: nameLoop_find find_filter usableAt_alt [abs_def])
  then show ?thesis
    using assms(1,2,3) rd st search
    by (simp add: extractTrackName_def MAX_SEARCH_SIZE_def tellg_def fail_def good_def Let_def
             split: option.splits)
qed

lemma usableAt_bass:
  "usableAt (pre @ bassEvent @ post) (length pre)"
  by (simp add: usableAt_def markerAt_def nameLength_def bassEvent_def nth_append)

lemma to_char_Bass: "map to_char [0x42, 0x61, 0x73, 0x73] = ''Bass''"
  by code_simp

lemma nameAt_bass:
  "nameAt (pre @ bassEvent @ post) (length pre) = ''Bass''"
proof -
  have "nameLength (pre @ bassEvent @ post) (length pre) = 4"
    by (simp add: nameLength_def bassEvent_def nth_append)
  moreover have "take 4 (drop (length pre + 3) (pre @ bassEvent @ post)) = [0x42, 0x61, 0x73, 0x73]"
    by (simp add: bassEvent_def)
  ultimately show ?thesis
    using to_char_Bass by (simp add: nameAt_def)
qed

text \<open>
  Claim C4. On a stream that delivers the whole window, \<^verbatim>\<open>extractTrackName\<close> returns
  the name at the first offset that carries the marker, a length byte \<open>L > 0\<close> and \<open>L\<close>
  bytes inside the window: markers before it whose bytes would end past the window, or
  whose length byte is zero, are passed over. In particular the bytes
  \<open>{0xFF, 0x03, 0x04, 'B', 'a', 's', 's'}\<close> in the window, with no usable name before them,
  give the name \<^verbatim>\<open>Bass\<close>.
\<close>

theorem extractTrackName_first_usable:
  assumes "good stream" "buffer_ok h" "strings_ok h"
    and "gpos stream + min (unat trackSize) 1024 \<le> length (content stream)"
  shows "(usableAt (window stream trackSize) p \<and> (\<forall>q<p. \<not> usableAt (window stream trackSize) q)
            \<longrightarrow> fst (extractTrackName h stream n trackSize) = Inr (nameAt (window stream trackSize) p))
       \<and> (window stream trackSize = pre @ bassEvent @ post
              \<and> (\<forall>q<length pre. \<not> usableAt (window stream trackSize) q)
            \<longrightarrow> fst (extractTrackName h stream n trackSize) = Inr ''Bass'')"
proof -
  let ?w = "window stream trackSize"
  have first: "fst (extractTrackName h stream n trackSize) = Inr (nameAt ?w p)"
    if "usableAt ?w p" "\<forall>q<p. \<not> usableAt ?w q" for p
  proof -
    have "p < length ?w" using that(1) by (simp add: usableAt_def)
    then have "find (usableAt ?w) [0..<length ?w] = Some p"
      using that by (intro find_upt_least) auto
    then show ?thesis
      using extractTrackName_window [OF assms, of n] by simp
  qed
  have "fst (extractTrackName h stream n trackSize) = Inr ''Bass''"
    if "?w = pre @ bassEvent @ post" "\<forall>q<length pre. \<not> usableAt ?w q"
    using first [of "length pre"] that usableAt_bass [of pre post] nameAt_bass [of pre post]
    by simp
  with first show ?thesis by blast
qed

theorem extractTrackName_first_usable_witness:
  "good (ifstream bassTrack\<lparr>gpos := 8\<rparr>) \<and> buffer_ok heap_ok \<and> strings_ok heap_ok
   \<and> gpos (ifstream bassTrack\<lparr>gpos := 8\<rparr>) + min (unat (12::u32)) 1024
        \<le> length (content (ifstream bassTrack\<lparr>gpos := 8\<rparr>))
   \<and> window (ifstream bassTrack\<lparr>gpos := 8\<rparr>) 12 = [0x00] @ bassEvent @ [0x00, 0xFF, 0x2F, 0x00]
   \<and> usableAt (window (ifstream bassTrack\<lparr>gpos := 8\<rparr>) 12) 1
   \<and> \<not> usableAt (window (ifstream bassTrack\<lparr>gpos := 8\<rparr>) 12) 0
   \<and> nameAt (window (ifstream bassTrack\<lparr>gpos := 8\<rparr>) 12) 1 = ''Bass''
   \<and> fst (extractTrackName heap_ok (ifstream bassTrack\<lparr>gpos := 8\<rparr>) 2 12) = Inr ''Bass''"
proof -
  let ?s = "ifstream bassTrack\<lparr>gpos := 8\<rparr>"
  have g: "good ?s" and b: "buffer_ok heap_ok" and a: "strings_ok heap_ok"
    by (simp_all add: good_def ifstream_def heap_ok_def)
  have fit: "gpos ?s + min (unat (12::u32)) 1024 \<le> length (content ?s)"
    by (simp add: ifstream_def bassTrack_def MTrk_def bassEvent_def)
  have w: "window ?s 12 = [0x00] @ bassEvent @ [0x00, 0xFF, 0x2F, 0x00]"
    by (simp add: window_def ifstream_def bassTrack_def MTrk_def bassEvent_def)
  have u: "usableAt (window ?s 12) 1"
    using usableAt_bass [of "[0x00]" "[0x00, 0xFF, 0x2F, 0x00]"] w by simp
  have first: "\<forall>q<1. \<not> usableAt (window ?s 12) q"
    by (simp add: w usableAt_def markerAt_def bassEvent_def)
  have nm: "nameAt (window ?s 12) 1 = ''Bass''"
    using nameAt_bass [of "[0x00]" "[0x00, 0xFF, 0x2F, 0x00]"] w by simp
  have "fst (extractTrackName heap_ok ?s 2 12) = Inr ''Bass''"
    using extractTrackName_first_usable [OF g b a fit, of 1 2 "[0x00]" "[0x00, 0xFF, 0x2F, 0x00]"]
          u first nm
    by simp
  moreover have "\<not> usableAt (window ?s 12) 0"
    using first by simp
  ultimately show ?thesis
    using g b a fit w u nm by blast
qed

text \<open>Without a usable name in the window the result is \<^verbatim>\<open>"Track " + number\<close>.\<close>

lemma extractTrackName_no_usable:
  assumes "good stream" "buffer_ok h" "strings_ok h"
    and "gpos stream + min (unat trackSize) 1024 \<le> length (content stream)"
    and "\<forall>q. \<not> usableAt (window stream trackSize) q"
  shows "fst (extractTrackName h stream n trackSize) = Inr (''Track '' @ to_string n)"
proof -
  have "find (usableAt (window stream trackSize)) [0..<length (window stream trackSize)] = None"
    using assms(5) by (intro find_upt_none) auto
  then show ?thesis
    using extractTrackName_window [OF assms(1-4), of n] by (simp add: fallbackName_def)
qed

text \<open>
  Claim C9. The read position of the stream after \<^verbatim>\<open>extractTrackName\<close> is its read
  position before the call, on every path: a failed buffer allocation, a stream that
  cannot tell its position, a short read, a name found, no name found, and an
  allocation failure that leaves the function.
\<close>

theorem extractTrackName_restores_position:
  "gpos (snd (extractTrackName h st n sz)) = gpos st"
  by (rule extractTrackName_gpos)

text \<open>
  Claim C10. Whenever allocation of the result succeeds, \<^verbatim>\<open>extractTrackName\<close> returns
  a string, and every string it returns is non-empty; a marker whose length byte is
  zero is passed over for the matches after it.
\<close>

theorem extractTrackName_nonempty:
  "(strings_ok h \<longrightarrow> (\<exists>s. fst (extractTrackName h st n sz) = Inr s \<and> s \<noteq> []))
   \<and> (\<forall>s. fst (extractTrackName h st n sz) = Inr s \<longrightarrow> s \<noteq> [])
   \<and> (w ! (p + 2) = 0 \<longrightarrow> nameLoop w (p # rest) = nameLoop w rest)"
  using extractTrackName_Inr_nonempty [of h st n sz] extractTrackName_returns [of h st n sz]
  by (auto simp: Let_def)

theorem extractTrackName_nonempty_witness:
  "strings_ok heap_ok
   \<and> fst (extractTrackName heap_ok (ifstream [0xFF, 0x03, 0x00, 0xFF, 0x03, 0x01, 0x41]) 2 7)
       = Inr ''A''
   \<and> ''A'' \<noteq> []
   \<and> [0xFF, 0x03, 0x00, 0xFF, 0x03, 0x01, 0x41 :: byte] ! (0 + 2) = 0
   \<and> nameLoop [0xFF, 0x03, 0x00, 0xFF, 0x03, 0x01, 0x41] (0 # [3])
       = nameLoop [0xFF, 0x03, 0x00, 0xFF, 0x03, 0x01, 0x41] [3]"
proof -
  have e: "fst (extractTrackName heap_ok (ifstream [0xFF, 0x03, 0x00, 0xFF, 0x03, 0x01, 0x41]) 2 7)
             = Inr ''A''"
    by code_simp
  have z: "[0xFF, 0x03, 0x00, 0xFF, 0x03, 0x01, 0x41 :: byte] ! (0 + 2) = 0"
    by simp
  have s: "strings_ok heap_ok"
    by (simp add: heap_ok_def)
  show ?thesis
    using extractTrackName_nonempty
            [of heap_ok "ifstream [0xFF, 0x03, 0x00, 0xFF, 0x03, 0x01, 0x41]" 2 7
                "[0xFF, 0x03, 0x00, 0xFF, 0x03, 0x01, 0x41]" 0 "[3]"]
          e z s
    by simp
qed

section \<open>The collision loop\<close>

text \<open>
  The loop is left only if the path does not exist when it is entered: on an existing
  path it never ends.
\<close>

lemma collisionLoop_Some:
  assumes "collisionLoop fs p b s c f = Some y"
  shows "exists fs p \<noteq> Inr True"
  by (rule collisionLoop.raw_induct
            [where P = "\<lambda>fs p b s c f y. exists fs p \<noteq> Inr True", OF _ assms])
     (auto split: sum.splits if_splits)

lemma collisionLoop_eq [code]:
  "collisionLoop fs p b s c f =
     (case exists fs p of
        Inl e \<Rightarrow> Some (Inl e)
      | Inr found \<Rightarrow> if found then None else Some (Inr f))"
proof (cases "exists fs p = Inr True")
  case True
  then have "collisionLoop fs p b s c f = None"
    using collisionLoop_Some [of fs p b s c f] by (cases "collisionLoop fs p b s c f") auto
  with True show ?thesis by simp
next
  case False
  then show ?thesis
    by (subst collisionLoop.simps) (auto split: sum.splits)
qed

section \<open>The byte codec\<close>

text \<open>
  As long as \<open>offset + 4\<close> (\<open>offset + 2\<close>) does not wrap, the decoders return 0 when too
  few bytes remain and the big-endian combination of the bytes at the offset otherwise,
  and read inside the buffer only.
\<close>

lemma unat_offset_add:
  fixes offset :: size_t
  assumes "unat offset + k < 2 ^ 64" "k < 2 ^ 64"
  shows "unat (offset + of_nat k) = unat offset + k"
proof -
  have "unat (of_nat k :: size_t) = k"
    using assms(2) by (simp add: unat_of_nat)
  then show ?thesis
    using assms(1) by (simp add: unat_add_lem [THEN iffD1])
qed

lemma bytesToUInt32_no_wrap:
  assumes "unat offset + 4 < 2 ^ 64"
  shows "(length bytes < unat offset + 4 \<longrightarrow> bytesToUInt32 bytes offset = Inr 0)
       \<and> (unat offset + 4 \<le> length bytes \<longrightarrow>
            bytesToUInt32 bytes offset =
              Inr (push_bit 24 (ucast (bytes ! unat offset))
                   OR push_bit 16 (ucast (bytes ! (unat offset + 1)))
                   OR push_bit 8 (ucast (bytes ! (unat offset + 2)))
                   OR ucast (bytes ! (unat offset + 3))))"
proof -
  have u4: "unat (offset + 4) = unat offset + 4"
    using unat_offset_add [of offset 4] assms by simp
  have u1: "unat (offset + 1) = unat offset + 1"
    using unat_offset_add [of offset 1] assms by simp
  have u2: "unat (offset + 2) = unat offset + 2"
    using unat_offset_add [of offset 2] assms by simp
  have u3: "unat (offset + 3) = unat offset + 3"
    using unat_offset_add [of offset 3] assms by simp
  show ?thesis
    by (simp add: bytesToUInt32_def at_def bindE_def u1 u2 u3 u4)
qed

lemma bytesToUInt16_no_wrap:
  assumes "unat offset + 2 < 2 ^ 64"
  shows "(length bytes < unat offset + 2 \<longrightarrow> bytesToUInt16 bytes offset = Inr 0)
       \<and> (unat offset + 2 \<le> length bytes \<longrightarrow>
            bytesToUInt16 bytes offset =
              Inr (push_bit 8 (ucast (bytes ! unat offset))
                   OR ucast (bytes ! (unat offset + 1))))"
proof -
  have u2: "unat (offset + 2) = unat offset + 2"
    using unat_offset_add [of offset 2] assms by simp
  have u1: "unat (offset + 1) = unat offset + 1"
    using unat_offset_add [of offset 1] assms by simp
  show ?thesis
    by (simp add: bytesToUInt16_def at_def bindE_def u1 u2)
qed








text \<open>The calls of \<^verbatim>\<open>splitMIDIFile\<close> (lines 225, 230, 235, 261) read inside their vectors.\<close>

lemma bytesToUInt_call_sites:
  assumes "length headerData = 14" "length trackHeader = 8"
  shows "bytesToUInt32 headerData 4 \<noteq> Inl OutOfBoundsRead"
    "bytesToUInt16 headerData 8 \<noteq> Inl OutOfBoundsRead"
    "bytesToUInt16 headerData 10 \<noteq> Inl OutOfBoundsRead"
    "bytesToUInt32 trackHeader 4 \<noteq> Inl OutOfBoundsRead"
  using assms bytesToUInt32_no_wrap [of 4 headerData] bytesToUInt16_no_wrap [of 8 headerData]
        bytesToUInt16_no_wrap [of 10 headerData] bytesToUInt32_no_wrap [of 4 trackHeader]
  by simp_all

text \<open>
  An offset within 4 (within 2) of the largest \<^verbatim>\<open>size_t\<close>, which no caller passes, makes
  the guard's sum wrap: the guard passes and the read is outside the buffer.
\<close>

lemma bytesToUInt_wrapped_offset:
  "bytesToUInt32 [0, 0, 0, 0] 0xFFFFFFFFFFFFFFFF = Inl OutOfBoundsRead
   \<and> bytesToUInt16 [0, 0] 0xFFFFFFFFFFFFFFFF = Inl OutOfBoundsRead"
  by (simp add: bytesToUInt32_def bytesToUInt16_def at_def bindE_def)

section \<open>The header checks\<close>

lemma readHeader_format:
  assumes "14 \<le> length bytes" "take 4 bytes = MThd"
    and "bytesToUInt32 bytes 4 = Inr 6" "bytesToUInt16 bytes 8 = Inr format" "format \<noteq> 1"
  shows "fst (readHeader (ifstream bytes)) = Inl NotFormat1"
proof -
  obtain f1 where rd: "read (ifstream bytes) 14 = (take 14 bytes, f1)"
    and f1: "\<not> failbit f1" "gcount f1 = 14"
    using assms(1) by (simp add: read_def ifstream_def good_def Let_def)
  have st: "stored (replicate 14 0) (take 14 bytes) = take 14 bytes"
    using assms(1) by (simp add: stored_def)
  have sz: "bytesToUInt32 (take 14 bytes) 4 = Inr 6"
    using assms(1,3) by (simp add: bytesToUInt32_def at_def bindE_def)
  have fm: "bytesToUInt16 (take 14 bytes) 8 = Inr format"
    using assms(1,4) by (simp add: bytesToUInt16_def at_def bindE_def)
  show ?thesis
    using assms(2,5)
    by (simp add: readHeader_def rd f1 st sz fm fail_def Let_def)
qed

text \<open>
  Claim C6. A file whose header has the magic \<^verbatim>\<open>MThd\<close>, the length 6 and a format field
  other than 1 is rejected with the exception \<^verbatim>\<open>Not a Format 1 MIDI file\<close>, and the
  output directory is as it was: no output file has been created.
\<close>

theorem splitMIDIFile_rejects_other_formats:
  assumes "14 \<le> length bytes" "take 4 bytes = MThd"
    and "bytesToUInt32 bytes 4 = Inr 6" "bytesToUInt16 bytes 8 = Inr format" "format \<noteq> 1"
  shows "splitMIDIFile h (Some bytes) baseName outputDir fs = Some (Inl NotFormat1, fs)"
  using readHeader_format [OF assms]
  by (auto simp: splitMIDIFile_def readTracks_def split: prod.splits sum.splits)

theorem splitMIDIFile_rejects_other_formats_witness:
  "14 \<le> length (MThd @ [0, 0, 0, 6, 0, 0, 0, 1, 0, 0x60] @ unnamedTrack)
   \<and> take 4 (MThd @ [0, 0, 0, 6, 0, 0, 0, 1, 0, 0x60] @ unnamedTrack) = MThd
   \<and> bytesToUInt32 (MThd @ [0, 0, 0, 6, 0, 0, 0, 1, 0, 0x60] @ unnamedTrack) 4 = Inr 6
   \<and> bytesToUInt16 (MThd @ [0, 0, 0, 6, 0, 0, 0, 1, 0, 0x60] @ unnamedTrack) 8 = Inr 0
   \<and> (0 :: u16) \<noteq> 1
   \<and> splitMIDIFile heap_ok (Some (MThd @ [0, 0, 0, 6, 0, 0, 0, 1, 0, 0x60] @ unnamedTrack))
         ''Song'' ''out'' empty_dir = Some (Inl NotFormat1, empty_dir)
   \<and> bytesToUInt16 (MThd @ [0, 0, 0, 6, 0, 2, 0, 1, 0, 0x60] @ unnamedTrack) 8 = Inr 2
   \<and> (2 :: u16) \<noteq> 1
   \<and> splitMIDIFile heap_ok (Some (MThd @ [0, 0, 0, 6, 0, 2, 0, 1, 0, 0x60] @ unnamedTrack))
         ''Song'' ''out'' empty_dir = Some (Inl NotFormat1, empty_dir)"
proof -
  let ?f0 = "MThd @ [0, 0, 0, 6, 0, 0, 0, 1, 0, 0x60] @ unnamedTrack"
  let ?f2 = "MThd @ [0, 0, 0, 6, 0, 2, 0, 1, 0, 0x60] @ unnamedTrack"
  have l0: "14 \<le> length ?f0" and l2: "14 \<le> length ?f2"
    by (simp_all add: MThd_def)
  have m0: "take 4 ?f0 = MThd" and m2: "take 4 ?f2 = MThd"
    by (simp_all add: MThd_def)
  have s0: "bytesToUInt32 ?f0 4 = Inr 6" and s2: "bytesToUInt32 ?f2 4 = Inr 6"
    by (simp_all add: MThd_def bytesToUInt32_def at_def bindE_def)
  have v0: "bytesToUInt16 ?f0 8 = Inr 0" and v2: "bytesToUInt16 ?f2 8 = Inr 2"
    by (simp_all add: MThd_def bytesToUInt16_def at_def bindE_def)
  have n0: "(0 :: u16) \<noteq> 1" and n2: "(2 :: u16) \<noteq> 1"
    by simp_all
  show ?thesis
    using splitMIDIFile_rejects_other_formats [OF l0 m0 s0 v0 n0, of heap_ok "''Song''" "''out''" empty_dir]
          splitMIDIFile_rejects_other_formats [OF l2 m2 s2 v2 n2, of heap_ok "''Song''" "''out''" empty_dir]
          l0 m0 s0 v0 v2
    by simp
qed

text \<open>
  Whatever the first eight bytes are, a file of at least 14 bytes whose format field is
  not 1 is rejected by one of the three header checks, and no output file is created.
\<close>

lemma splitMIDIFile_other_format_rejected:
  assumes "14 \<le> length bytes" "bytesToUInt16 bytes 8 = Inr format" "format \<noteq> 1"
  shows "\<exists>e. splitMIDIFile h (Some bytes) baseName outputDir fs = Some (Inl e, fs)
           \<and> (e = MissingMThd \<or> e = InvalidHeaderSize \<or> e = NotFormat1)"
proof -
  obtain f1 where rd: "read (ifstream bytes) 14 = (take 14 bytes, f1)"
    and f1: "\<not> failbit f1" "gcount f1 = 14"
    using assms(1) by (simp add: read_def ifstream_def good_def Let_def)
  have st: "stored (replicate 14 0) (take 14 bytes) = take 14 bytes"
    using assms(1) by (simp add: stored_def)
  have fm: "bytesToUInt16 (take 14 bytes) 8 = Inr format"
    using assms(1,2) by (simp add: bytesToUInt16_def at_def bindE_def)
  have sz: "\<exists>v. bytesToUInt32 (take 14 bytes) 4 = Inr v"
    using assms(1) by (simp add: bytesToUInt32_def at_def bindE_def)
  then obtain v where v: "bytesToUInt32 (take 14 bytes) 4 = Inr v" ..
  have "fst (readHeader (ifstream bytes)) = Inl MissingMThd
        \<or> fst (readHeader (ifstream bytes)) = Inl InvalidHeaderSize
        \<or> fst (readHeader (ifstream bytes)) = Inl NotFormat1"
    using assms(3) by (simp add: readHeader_def rd f1 st v fm fail_def Let_def)
  then show ?thesis
    by (auto simp: splitMIDIFile_def readTracks_def split: prod.splits sum.splits)
qed

section \<open>The track loop\<close>

declare copyStream.simps [simp del] trackLoop.simps [simp del]

lemma bytesToUInt32_after_magic:
  assumes "length sf = 4"
  shows "bytesToUInt32 (MTrk @ sf) 4 = bytesToUInt32 sf 0"
  using assms by (simp add: bytesToUInt32_def at_def bindE_def MTrk_def nth_append)

text \<open>
  One round of the loop on a complete chunk: the track is recorded with the position
  of its chunk header and its declared size, and the stream stands at the next chunk.
\<close>

lemma trackLoop_step:
  assumes "good src" "i < totalTracks" "validChunk c"
    and "content src = pre @ chunkBytes c @ post" "gpos src = length pre"
  shows "\<exists>src' nm. trackLoop h totalTracks i src tracks
            = trackLoop h totalTracks (i + 1) src'
                (tracks @ [\<lparr>number = i + 1, name = nm, size_bytes = of_nat (length (snd c)),
                            position = length pre\<rparr>])
          \<and> good src' \<and> content src' = content src \<and> seek_bounded src' = seek_bounded src
          \<and> gpos src' = length (pre @ chunkBytes c)"
proof -
  obtain sf pl where c: "c = (sf, pl)" by (cases c)
  have sf: "length sf = 4" and pl: "length pl < 2 ^ 32"
    and dec: "bytesToUInt32 sf 0 = Inr (of_nat (length pl))"
    using assms(3) by (simp_all add: validChunk_def c)
  define sz :: u32 where "sz = of_nat (length pl)"
  have usz: "unat sz = length pl"
    using pl by (simp add: sz_def unat_of_nat)
  define f2 where "f2 = src\<lparr>gpos := length pre + 8, gcount := 8\<rparr>"
  have tell: "tellg src = (Some (length pre), src)"
    using assms(1,5) by (simp add: tellg_def)
  have "take 8 (drop (gpos src) (content src)) = MTrk @ sf"
    using assms(4,5) sf by (simp add: chunkBytes_def c MTrk_def)
  then have rd: "read src 8 = (MTrk @ sf, f2)"
    using read_full [of src 8] assms(1,4,5) sf
    by (simp add: f2_def chunkBytes_def c MTrk_def)
  have st: "stored (replicate 8 0) (MTrk @ sf) = MTrk @ sf"
    using sf by (simp add: stored_def MTrk_def)
  have f2: "good f2" "gpos f2 \<le> length (content f2)" "\<not> fail f2" "gcount f2 = 8"
    "content f2 = content src" "seek_bounded f2 = seek_bounded src" "gpos f2 = length pre + 8"
    using assms(1,4) sf by (simp_all add: f2_def good_def fail_def chunkBytes_def c MTrk_def)
  define r where "r = fst (extractTrackName h f2 (Suc i) sz)"
  define f3 where "f3 = snd (extractTrackName h f2 (Suc i) sz)"
  have ex: "extractTrackName h f2 (Suc i) sz = (r, f3)"
    by (simp add: r_def f3_def)
  have f3: "good f3" "content f3 = content src" "seek_bounded f3 = seek_bounded src"
    "gpos f3 = length pre + 8"
    using extractTrackName_stream [OF f2(1,2), of h "Suc i" sz] f2(5,6,7)
    by (simp_all add: f3_def)
  have mg: "length MTrk = 4"
    by (simp add: MTrk_def)
  define f4 where "f4 = seekg_cur f3 (unat sz)"
  have len: "length pre + 8 + length pl \<le> length (content src)"
    using assms(4) sf by (simp add: chunkBytes_def c MTrk_def)
  have f4: "good f4" "content f4 = content src" "seek_bounded f4 = seek_bounded src"
    "gpos f4 = length pre + 8 + length pl"
    using f3 len usz by (auto simp: f4_def seekg_cur_def seekg_def good_def Let_def)
  have "trackLoop h totalTracks i src tracks
          = trackLoop h totalTracks (i + 1) f4
              (tracks @ [\<lparr>number = i + 1, name = nameOrDefault i r, size_bytes = sz,
                          position = length pre\<rparr>])"
    using assms(2) f2(3,4) f4(1)
    by (subst trackLoop.simps)
       (simp add: tell rd st mg ex bytesToUInt32_after_magic [OF sf] dec sz_def [symmetric]
                  f4_def [symmetric] fail_def good_def)
  moreover have "gpos f4 = length (pre @ chunkBytes c)"
    using f4(4) sf by (simp add: chunkBytes_def c MTrk_def)
  ultimately show ?thesis
    using f4(1,2,3) by (auto simp: sz_def c)
qed

lemma chunkAt_first:
  assumes "validChunk c" "bytes = pre @ chunkBytes c @ post"
    and "position t = length pre" "size_bytes t = of_nat (length (snd c))"
  shows "chunkAt bytes t = chunkBytes c"
    and "unat (size_bytes t) = length (snd c)"
    and "position t + 8 + unat (size_bytes t) \<le> length bytes"
proof -
  have u: "unat (size_bytes t) = length (snd c)"
    using assms(1,4) by (simp add: validChunk_def unat_of_nat)
  have l: "length (chunkBytes c) = 8 + length (snd c)"
    using assms(1) by (simp add: validChunk_def chunkBytes_def MTrk_def)
  show "chunkAt bytes t = chunkBytes c"
    using assms(2,3) u l by (simp add: chunkAt_def)
  show "unat (size_bytes t) = length (snd c)" by (rule u)
  show "position t + 8 + unat (size_bytes t) \<le> length bytes"
    using assms(2,3) u l by simp
qed

lemma trackLoop_chunks:
  assumes "good src" "\<forall>c\<in>set cs. validChunk c"
    and "content src = pre @ concat (map chunkBytes cs) @ post" "gpos src = length pre"
    and "totalTracks = i + length cs"
  shows "\<exists>src' ts. trackLoop h totalTracks i src tracks = (Inr (tracks @ ts), src')
           \<and> content src' = content src \<and> seek_bounded src' = seek_bounded src
           \<and> length ts = length cs
           \<and> (\<forall>k<length cs. chunkAt (content src) (ts ! k) = chunkBytes (cs ! k)
                  \<and> number (ts ! k) = i + k + 1
                  \<and> unat (size_bytes (ts ! k)) = length (snd (cs ! k))
                  \<and> position (ts ! k) + 8 + unat (size_bytes (ts ! k)) \<le> length (content src))"
  using assms
proof (induction cs arbitrary: src i tracks pre)
  case Nil
  then have "trackLoop h totalTracks i src tracks = (Inr (tracks @ []), src)"
    by (subst trackLoop.simps) simp
  then show ?case by auto
next
  case (Cons c cs)
  have lt: "i < totalTracks" and vc: "validChunk c"
    using Cons.prems(2,5) by simp_all
  have ct: "content src = pre @ chunkBytes c @ (concat (map chunkBytes cs) @ post)"
    using Cons.prems(3) by simp
  from trackLoop_step [OF Cons.prems(1) lt vc ct Cons.prems(4), of h tracks]
  obtain src1 nm where step: "trackLoop h totalTracks i src tracks
            = trackLoop h totalTracks (i + 1) src1
                (tracks @ [\<lparr>number = i + 1, name = nm, size_bytes = of_nat (length (snd c)),
                            position = length pre\<rparr>])"
    and s1: "good src1" "content src1 = content src" "seek_bounded src1 = seek_bounded src"
      "gpos src1 = length (pre @ chunkBytes c)"
    by blast
  define t0 where "t0 = \<lparr>number = i + 1, name = nm, size_bytes = of_nat (length (snd c)),
                          position = length pre\<rparr>"
  have c1: "content src1 = (pre @ chunkBytes c) @ concat (map chunkBytes cs) @ post"
    using s1(2) ct by simp
  have v1: "\<forall>c\<in>set cs. validChunk c" and tot: "totalTracks = (i + 1) + length cs"
    using Cons.prems(2,5) by simp_all
  from Cons.IH [OF s1(1) v1 c1 s1(4) tot, of "tracks @ [t0]"]
  obtain src' ts where r: "trackLoop h totalTracks (i + 1) src1 (tracks @ [t0])
                             = (Inr ((tracks @ [t0]) @ ts), src')"
    and s': "content src' = content src1" "seek_bounded src' = seek_bounded src1"
    and len: "length ts = length cs"
    and each: "\<forall>k<length cs. chunkAt (content src1) (ts ! k) = chunkBytes (cs ! k)
                  \<and> number (ts ! k) = i + 1 + k + 1
                  \<and> unat (size_bytes (ts ! k)) = length (snd (cs ! k))
                  \<and> position (ts ! k) + 8 + unat (size_bytes (ts ! k)) \<le> length (content src1)"
    by blast
  have t0: "chunkAt (content src) t0 = chunkBytes c" "number t0 = i + 0 + 1"
    "unat (size_bytes t0) = length (snd c)"
    "position t0 + 8 + unat (size_bytes t0) \<le> length (content src)"
    using chunkAt_first [OF vc ct, of t0] by (simp_all add: t0_def)
  have "trackLoop h totalTracks i src tracks = (Inr (tracks @ (t0 # ts)), src')"
    using step r by (simp add: t0_def)
  moreover have "\<forall>k<length (c # cs). chunkAt (content src) ((t0 # ts) ! k) = chunkBytes ((c # cs) ! k)
                  \<and> number ((t0 # ts) ! k) = i + k + 1
                  \<and> unat (size_bytes ((t0 # ts) ! k)) = length (snd ((c # cs) ! k))
                  \<and> position ((t0 # ts) ! k) + 8 + unat (size_bytes ((t0 # ts) ! k))
                       \<le> length (content src)"
  proof (intro allI impI)
    fix k assume "k < length (c # cs)"
    then show "chunkAt (content src) ((t0 # ts) ! k) = chunkBytes ((c # cs) ! k)
                  \<and> number ((t0 # ts) ! k) = i + k + 1
                  \<and> unat (size_bytes ((t0 # ts) ! k)) = length (snd ((c # cs) ! k))
                  \<and> position ((t0 # ts) ! k) + 8 + unat (size_bytes ((t0 # ts) ! k))
                       \<le> length (content src)"
      using t0 each s1(2) by (cases k) auto
  qed
  moreover have "content src' = content src" "seek_bounded src' = seek_bounded src"
    "length (t0 # ts) = length (c # cs)"
    using s' s1(2,3) len by simp_all
  ultimately show ?case by blast
qed

text \<open>
  On a stream whose buffer refuses positions past the end of the data, a track that
  declares more bytes than remain stops the loop with the exception
  \<^verbatim>\<open>Error seeking to next track\<close> for that track. A stream opened on a file is not such a
  stream.
\<close>

lemma trackLoop_truncated_when_seek_bounded:
  assumes "good src" "seek_bounded src" "i < totalTracks"
    and "content src = pre @ MTrk @ sf @ rest" "gpos src = length pre"
    and "length sf = 4" "bytesToUInt32 sf 0 = Inr sz" "length rest < unat sz"
  shows "fst (trackLoop h totalTracks i src tracks) = Inl (SeekNextTrackError (i + 1))"
proof -
  define f2 where "f2 = src\<lparr>gpos := length pre + 8, gcount := 8\<rparr>"
  have mg: "length MTrk = 4"
    by (simp add: MTrk_def)
  have tell: "tellg src = (Some (length pre), src)"
    using assms(1,5) by (simp add: tellg_def)
  have rd: "read src 8 = (MTrk @ sf, f2)"
    using read_full [of src 8] assms(1,4,5,6) mg by (simp add: f2_def)
  have st: "stored (replicate 8 0) (MTrk @ sf) = MTrk @ sf"
    using assms(6) mg by (simp add: stored_def)
  have f2: "good f2" "gpos f2 \<le> length (content f2)" "\<not> fail f2" "gcount f2 = 8"
    "content f2 = content src" "seek_bounded f2" "gpos f2 = length pre + 8"
    using assms(1,2,4,6) mg by (simp_all add: f2_def good_def fail_def)
  define r where "r = fst (extractTrackName h f2 (Suc i) sz)"
  define f3 where "f3 = snd (extractTrackName h f2 (Suc i) sz)"
  have ex: "extractTrackName h f2 (Suc i) sz = (r, f3)"
    by (simp add: r_def f3_def)
  have f3: "good f3" "content f3 = content src" "seek_bounded f3" "gpos f3 = length pre + 8"
    using extractTrackName_stream [OF f2(1,2), of h "Suc i" sz] f2(5,6,7)
    by (simp_all add: f3_def)
  have "length (content src) < length pre + 8 + unat sz"
    using assms(4,6,8) mg by simp
  then have "fail (seekg_cur f3 (unat sz))"
    using f3 by (simp add: seekg_cur_def seekg_def good_def fail_def Let_def)
  then show ?thesis
    using assms(3) f2(3,4)
    by (subst trackLoop.simps)
       (simp add: tell rd st mg ex bytesToUInt32_after_magic [OF assms(6)] assms(7) fail_def)
qed

lemma nameOrDefault_raise:
  "nameOrDefault 0 (Inl e) = ''Tempo Track''"
  by (simp add: nameOrDefault_def)

section \<open>The track writer\<close>

text \<open>\<^verbatim>\<open>copyStream\<close> copies exactly \<open>n\<close> bytes when the source holds them.\<close>

lemma copyStream_exact:
  assumes "good inp" "gpos inp + n \<le> length (content inp)" "\<not> ofail out"
    and "files fs (opath out) = Some old"
  shows "\<exists>inp' fs'. copyStream inp out fs n = (Inr (), inp', fs')
           \<and> content inp' = content inp \<and> seek_bounded inp' = seek_bounded inp
           \<and> creatable fs' = creatable fs \<and> status_fails fs' = status_fails fs
           \<and> files fs' = (files fs)(opath out \<mapsto> old @ take n (drop (gpos inp) (content inp)))"
  using assms
proof (induction n arbitrary: inp fs old rule: less_induct)
  case (less n)
  show ?case
  proof (cases "n = 0")
    case True
    then show ?thesis
      using less.prems(4) by (subst copyStream.simps) (simp add: map_upd_triv)
  next
    case False
    define k where "k = min n BUFFER_SIZE"
    have k: "0 < k" "k \<le> n"
      using False by (auto simp: k_def BUFFER_SIZE_def)
    define in1 where "in1 = inp\<lparr>gpos := gpos inp + k, gcount := k\<rparr>"
    define got where "got = take k (drop (gpos inp) (content inp))"
    define fs1 where "fs1 = fs\<lparr>files := (files fs)(opath out \<mapsto> old @ got)\<rparr>"
    have rd: "read inp (min n BUFFER_SIZE) = (got, in1)"
      using read_full [of inp k] less.prems(1,2) k by (simp add: k_def got_def in1_def)
    have wr: "owrite out fs got = (out, fs1)"
      using less.prems(3,4) by (simp add: owrite_def fs1_def)
    have in1: "good in1" "gpos in1 + (n - k) \<le> length (content in1)"
      "gcount in1 = k" "content in1 = content inp" "seek_bounded in1 = seek_bounded inp"
      using less.prems(1,2) k by (simp_all add: in1_def good_def)
    have step: "copyStream inp out fs n = copyStream in1 out fs1 (n - k)"
      using False k less.prems(3) in1(1,3)
      by (subst copyStream.simps) (simp add: rd wr good_def)
    have fs1: "files fs1 (opath out) = Some (old @ got)" "creatable fs1 = creatable fs"
      "status_fails fs1 = status_fails fs"
      by (simp_all add: fs1_def)
    have "n - k < n" using k by simp
    from less.IH [OF this in1(1,2) less.prems(3) fs1(1)]
    obtain inp' fs' where r: "copyStream in1 out fs1 (n - k) = (Inr (), inp', fs')"
      and c: "content inp' = content in1" "seek_bounded inp' = seek_bounded in1"
        "creatable fs' = creatable fs1" "status_fails fs' = status_fails fs1"
      and f: "files fs' = (files fs1)(opath out \<mapsto>
                 (old @ got) @ take (n - k) (drop (gpos in1) (content in1)))"
      by blast
    have "got @ take (n - k) (drop (gpos in1) (content in1))
            = take (k + (n - k)) (drop (gpos inp) (content inp))"
      by (simp add: got_def in1_def take_add add.commute)
    then have "(old @ got) @ take (n - k) (drop (gpos in1) (content in1))
            = old @ take n (drop (gpos inp) (content inp))"
      using k by simp
    with f have "files fs' = (files fs)(opath out \<mapsto> old @ take n (drop (gpos inp) (content inp)))"
      by (simp add: fs1_def)
    moreover have "copyStream inp out fs n = (Inr (), inp', fs')"
      using step r by simp
    moreover have "content inp' = content inp" "seek_bounded inp' = seek_bounded inp"
      "creatable fs' = creatable fs" "status_fails fs' = status_fails fs"
      using c in1(4,5) fs1(2,3) by simp_all
    ultimately show ?thesis by blast
  qed
qed

lemma seekg_clear:
  assumes "\<not> seek_bounded src \<or> p \<le> length (content src)"
  shows "good (seekg (clear src) p)" "gpos (seekg (clear src) p) = p"
    "content (seekg (clear src) p) = content src"
    "seek_bounded (seekg (clear src) p) = seek_bounded src"
  using assms by (auto simp: seekg_def clear_def good_def Let_def)

lemma writeTracks_copies:
  assumes "distinct (map (outPath outputDir baseName) tracks)"
    and "\<forall>t\<in>set tracks. files fs (outPath outputDir baseName t) = None
                           \<and> creatable fs (outPath outputDir baseName t)
                           \<and> \<not> status_fails fs (outPath outputDir baseName t)"
    and "\<forall>t\<in>set tracks. unat (size_bytes t) + 8 < 2 ^ 32
                           \<and> position t + 8 + unat (size_bytes t) \<le> length (content src)"
  shows "\<exists>fs'. writeTracks outputHeader baseName outputDir tracks src fs splitCount
                  = Some (Inr (splitCount + length tracks), fs')
           \<and> creatable fs' = creatable fs \<and> status_fails fs' = status_fails fs
           \<and> (\<forall>t\<in>set tracks. files fs' (outPath outputDir baseName t)
                                 = Some (outputHeader @ chunkAt (content src) t))
           \<and> (\<forall>p. p \<notin> outPath outputDir baseName ` set tracks \<longrightarrow> files fs' p = files fs p)"
  using assms
proof (induction tracks arbitrary: src fs splitCount)
  case Nil
  show ?case by simp
next
  case (Cons t rest)
  let ?p = "(outputDir, outName baseName t)"
  let ?q = "outPath outputDir baseName t"
  have q: "native ?p = ?q"
    by (simp add: outPath_def)
  have fresh: "exists fs ?p = Inr False" and can: "creatable fs ?q"
    using Cons.prems(2) by (simp_all add: exists_def q)
  have sz: "unat (8 + size_bytes t) = 8 + unat (size_bytes t)"
    and fit: "position t + (8 + unat (size_bytes t)) \<le> length (content src)"
    using Cons.prems(3) by (simp_all add: unat_word_ariths)
  define fs1 where "fs1 = fs\<lparr>files := (files fs)(?q \<mapsto> [])\<rparr>"
  define fs2 where "fs2 = fs\<lparr>files := (files fs)(?q \<mapsto> outputHeader)\<rparr>"
  define out where "out = \<lparr>opath = ?q, ofail = False\<rparr>"
  define f1 where "f1 = seekg (clear src) (position t)"
  have loop: "collisionLoop fs ?p baseName (getSafeFilename (name t)) 1 (outName baseName t)
                = Some (Inr (outName baseName t))"
    using fresh by (simp add: collisionLoop_eq)
  have op: "open_ofstream fs ?p = (out, fs1)"
    using can by (simp add: open_ofstream_def out_def fs1_def q)
  have wr: "owrite out fs1 outputHeader = (out, fs2)"
    by (simp add: owrite_def out_def fs1_def fs2_def)
  have f1: "good f1" "gpos f1 = position t" "content f1 = content src"
    "seek_bounded f1 = seek_bounded src"
    using seekg_clear [of src "position t"] fit by (simp_all add: f1_def)
  have "\<exists>inp' fs'. copyStream f1 out fs2 (8 + unat (size_bytes t)) = (Inr (), inp', fs')
           \<and> content inp' = content f1 \<and> seek_bounded inp' = seek_bounded f1
           \<and> creatable fs' = creatable fs2 \<and> status_fails fs' = status_fails fs2
           \<and> files fs' = (files fs2)(opath out \<mapsto> outputHeader
                 @ take (8 + unat (size_bytes t)) (drop (gpos f1) (content f1)))"
    using f1 fit by (intro copyStream_exact) (simp_all add: out_def fs2_def)
  then obtain f2 fs3 where cp: "copyStream f1 out fs2 (8 + unat (size_bytes t)) = (Inr (), f2, fs3)"
    and f2: "content f2 = content src" "seek_bounded f2 = seek_bounded src"
    and fs3: "creatable fs3 = creatable fs" "status_fails fs3 = status_fails fs"
      "files fs3 = (files fs)(?q \<mapsto> outputHeader @ chunkAt (content src) t)"
    using f1 by (auto simp: out_def fs2_def chunkAt_def)
  have step: "writeTracks outputHeader baseName outputDir (t # rest) src fs splitCount
                = writeTracks outputHeader baseName outputDir rest f2 fs3 (splitCount + 1)"
    unfolding writeTracks.simps Let_def outName_def [symmetric] f1_def [symmetric]
    using loop op wr cp f1(1) sz
    by (simp add: out_def fail_def good_def)
  have d1: "distinct (map (outPath outputDir baseName) rest)"
    and notin: "?q \<notin> outPath outputDir baseName ` set rest"
    using Cons.prems(1) by simp_all
  have d2: "outPath outputDir baseName u \<noteq> ?q" if "u \<in> set rest" for u
  proof
    assume "outPath outputDir baseName u = ?q"
    then have "?q \<in> outPath outputDir baseName ` set rest"
      using that by (metis imageI)
    with notin show False ..
  qed
  have r2: "\<forall>u\<in>set rest. files fs3 (outPath outputDir baseName u) = None
                           \<and> creatable fs3 (outPath outputDir baseName u)
                           \<and> \<not> status_fails fs3 (outPath outputDir baseName u)"
    using Cons.prems(2) d2 fs3 by simp
  have r3: "\<forall>u\<in>set rest. unat (size_bytes u) + 8 < 2 ^ 32
                           \<and> position u + 8 + unat (size_bytes u) \<le> length (content f2)"
    using Cons.prems(3) f2 by simp
  from Cons.IH [OF d1 r2 r3, of "splitCount + 1"]
  obtain fs' where w: "writeTracks outputHeader baseName outputDir rest f2 fs3 (splitCount + 1)
                         = Some (Inr (splitCount + 1 + length rest), fs')"
    and c: "creatable fs' = creatable fs3" "status_fails fs' = status_fails fs3"
    and g: "\<forall>u\<in>set rest. files fs' (outPath outputDir baseName u)
                              = Some (outputHeader @ chunkAt (content f2) u)"
    and o: "\<forall>p. p \<notin> outPath outputDir baseName ` set rest \<longrightarrow> files fs' p = files fs3 p"
    by blast
  have "files fs' ?q = files fs3 ?q"
    using o notin by blast
  then have "files fs' ?q = Some (outputHeader @ chunkAt (content src) t)"
    using fs3(3) by simp
  moreover have "\<forall>p. p \<notin> outPath outputDir baseName ` set (t # rest)
                   \<longrightarrow> files fs' p = files fs p"
    using o fs3(3) by auto
  ultimately show ?case
    using step w c fs3(1,2) g f2(1) by auto
qed

text \<open>
  A Format-1 file made of a header and complete track chunks, each shorter than
  \<open>2^32 - 8\<close> bytes, split into a directory where the native paths of the tracks'
  output files are pairwise distinct, do not exist, can be created and can be queried:
  one file per track, holding the new header and the track's chunk, byte for byte; the
  chunks together are the input after its header.
\<close>

lemma readHeader_valid:
  assumes "bytes = MThd @ [0, 0, 0, 6, 0, 1, c0, c1, d0, d1] @ rest"
    and "bytesToUInt16 [c0, c1] 0 = Inr n"
  shows "\<exists>f1. readHeader (ifstream bytes) = (Inr (n, [d0, d1]), f1)
           \<and> good f1 \<and> content f1 = bytes \<and> gpos f1 = 14 \<and> \<not> seek_bounded f1"
proof -
  define f1 where "f1 = (ifstream bytes)\<lparr>gpos := 14, gcount := 14\<rparr>"
  have rd: "read (ifstream bytes) 14 = (MThd @ [0, 0, 0, 6, 0, 1, c0, c1, d0, d1], f1)"
    using read_full [of "ifstream bytes" 14] assms(1)
    by (simp add: f1_def ifstream_def good_def MThd_def)
  have f1: "good f1" "content f1 = bytes" "gpos f1 = 14" "\<not> seek_bounded f1"
    "\<not> fail f1" "gcount f1 = 14"
    by (simp_all add: f1_def ifstream_def good_def fail_def)
  have n: "n = push_bit 8 (ucast c0) OR ucast c1"
    using assms(2) by (simp add: bytesToUInt16_def at_def bindE_def)
  have "readHeader (ifstream bytes) = (Inr (n, [d0, d1]), f1)"
    using f1(5,6)
    by (simp add: readHeader_def rd stored_def MThd_def bytesToUInt32_def bytesToUInt16_def
                  at_def bindE_def n)
  with f1(1-4) show ?thesis by blast
qed

lemma splitMIDIFile_lossless_when_fresh:
  assumes "bytes = MThd @ [0, 0, 0, 6, 0, 1, c0, c1, d0, d1] @ concat (map chunkBytes cs)"
    and "bytesToUInt16 [c0, c1] 0 = Inr (of_nat (length cs))" "length cs < 2 ^ 16"
    and "\<forall>c\<in>set cs. validChunk c \<and> length (snd c) + 8 < 2 ^ 32"
    and "fst (readTracks h (ifstream bytes)) = Inr (division, ts)"
    and "distinct (map (outPath outputDir baseName) ts)"
    and "\<forall>t\<in>set ts. files fs (outPath outputDir baseName t) = None
                       \<and> creatable fs (outPath outputDir baseName t)
                       \<and> \<not> status_fails fs (outPath outputDir baseName t)"
  shows "\<exists>fs'. splitMIDIFile h (Some bytes) baseName outputDir fs = Some (Inr (length cs), fs')
           \<and> length ts = length cs
           \<and> (\<forall>k<length cs. files fs' (outPath outputDir baseName (ts ! k))
                  = Some (MThd @ [0, 0, 0, 6, 0, 1, 0, 1, d0, d1] @ chunkBytes (cs ! k)))
           \<and> (\<forall>p. p \<notin> outPath outputDir baseName ` set ts \<longrightarrow> files fs' p = files fs p)
           \<and> concat (map chunkBytes cs) = drop 14 bytes"
proof -
  let ?hdr = "MThd @ [0, 0, 0, 6, 0, 1, c0, c1, d0, d1]"
  from readHeader_valid [OF assms(1,2)]
  obtain f1 where rh: "readHeader (ifstream bytes) = (Inr (of_nat (length cs), [d0, d1]), f1)"
    and f1: "good f1" "content f1 = bytes" "gpos f1 = 14" "\<not> seek_bounded f1"
    by blast
  have tot: "unat (of_nat (length cs) :: u16) = 0 + length cs"
    using assms(3) by (simp add: unat_of_nat)
  have ct: "content f1 = ?hdr @ concat (map chunkBytes cs) @ []"
    using f1(2) assms(1) by simp
  have g14: "gpos f1 = length ?hdr"
    using f1(3) by (simp add: MThd_def)
  have vc: "\<forall>c\<in>set cs. validChunk c"
    using assms(4) by simp
  from trackLoop_chunks [OF f1(1) vc ct g14 tot, of h "[]"]
  obtain f2 ts' where tl: "trackLoop h (unat (of_nat (length cs) :: u16)) 0 f1 [] = (Inr ts', f2)"
    and f2: "content f2 = bytes" "seek_bounded f2 = seek_bounded f1"
    and len: "length ts' = length cs"
    and each: "\<forall>k<length cs. chunkAt bytes (ts' ! k) = chunkBytes (cs ! k)
                  \<and> number (ts' ! k) = 0 + k + 1
                  \<and> unat (size_bytes (ts' ! k)) = length (snd (cs ! k))
                  \<and> position (ts' ! k) + 8 + unat (size_bytes (ts' ! k)) \<le> length bytes"
    using f1(2) by auto
  have rt: "readTracks h (ifstream bytes) = (Inr ([d0, d1], ts'), f2)"
    by (simp add: readTracks_def rh tl)
  with assms(5) have eq: "division = [d0, d1]" "ts = ts'"
    by simp_all
  have sizes: "\<forall>t\<in>set ts. unat (size_bytes t) + 8 < 2 ^ 32
                 \<and> position t + 8 + unat (size_bytes t) \<le> length (content f2)"
  proof
    fix t assume "t \<in> set ts"
    then obtain k where k: "k < length cs" "t = ts' ! k"
      using eq(2) len by (metis in_set_conv_nth)
    then have "cs ! k \<in> set cs" by simp
    with assms(4) have "length (snd (cs ! k)) + 8 < 2 ^ 32" by blast
    moreover have "unat (size_bytes (ts' ! k)) = length (snd (cs ! k))"
      "position (ts' ! k) + 8 + unat (size_bytes (ts' ! k)) \<le> length bytes"
      using each k(1) by blast+
    ultimately show "unat (size_bytes t) + 8 < 2 ^ 32
            \<and> position t + 8 + unat (size_bytes t) \<le> length (content f2)"
      using k(2) f2(1) by simp
  qed
  let ?out = "MThd @ uint32ToBytes 6 @ uint16ToBytes 1 @ uint16ToBytes 1 @ [d0, d1]"
  have out: "?out = MThd @ [0, 0, 0, 6, 0, 1, 0, 1, d0, d1]"
    by (simp add: uint32ToBytes_def uint16ToBytes_def)
  from writeTracks_copies [OF assms(6,7) sizes, of ?out 0]
  obtain fs' where w: "writeTracks ?out baseName outputDir ts f2 fs 0
                         = Some (Inr (0 + length ts), fs')"
    and g: "\<forall>t\<in>set ts. files fs' (outPath outputDir baseName t)
                            = Some (?out @ chunkAt (content f2) t)"
    and o: "\<forall>p. p \<notin> outPath outputDir baseName ` set ts \<longrightarrow> files fs' p = files fs p"
    by blast
  have "splitMIDIFile h (Some bytes) baseName outputDir fs = Some (Inr (length cs), fs')"
    using rt w eq(2) len by (simp add: splitMIDIFile_def Let_def)
  moreover have "\<forall>k<length cs. files fs' (outPath outputDir baseName (ts ! k))
                  = Some (MThd @ [0, 0, 0, 6, 0, 1, 0, 1, d0, d1] @ chunkBytes (cs ! k))"
  proof (intro allI impI)
    fix k assume k: "k < length cs"
    then have "ts ! k \<in> set ts" using eq(2) len by simp
    with g have "files fs' (outPath outputDir baseName (ts ! k))
                   = Some (?out @ chunkAt (content f2) (ts ! k))" by blast
    moreover have "chunkAt bytes (ts' ! k) = chunkBytes (cs ! k)"
      using each k by blast
    ultimately show "files fs' (outPath outputDir baseName (ts ! k))
            = Some (MThd @ [0, 0, 0, 6, 0, 1, 0, 1, d0, d1] @ chunkBytes (cs ! k))"
      using eq(2) f2(1) out by simp
  qed
  moreover have "concat (map chunkBytes cs) = drop 14 bytes"
    using assms(1) by (simp add: MThd_def)
  moreover have "length ts = length cs"
    using eq(2) len by simp
  ultimately show ?thesis
    using o by blast
qed

text \<open>The hypotheses hold for a file with a track named \<^verbatim>\<open>Bass\<close> and an unnamed second track.\<close>

lemma splitMIDIFile_lossless_example:
  "\<exists>fs'. splitMIDIFile heap_ok (Some (header1 2 @ bassTrack @ unnamedTrack)) ''Song'' ''out''
            empty_dir = Some (Inr 2, fs')
         \<and> files fs' (''out'', ''Song - Bass.mid'') = Some (header1 1 @ bassTrack)
         \<and> files fs' (''out'', ''Song - Track 2.mid'') = Some (header1 1 @ unnamedTrack)"
proof -
  let ?c1 = "([0, 0, 0, 12], [0x00] @ bassEvent @ [0x00, 0xFF, 0x2F, 0x00]) :: byte list \<times> byte list"
  let ?c2 = "([0, 0, 0, 4], [0x00, 0xFF, 0x2F, 0x00]) :: byte list \<times> byte list"
  let ?bytes = "header1 2 @ bassTrack @ unnamedTrack"
  define t1 :: TrackInfo
    where "t1 = \<lparr>number = 1, name = ''Bass'', size_bytes = 12, position = 14\<rparr>"
  define t2 :: TrackInfo
    where "t2 = \<lparr>number = 2, name = ''Track 2'', size_bytes = 4, position = 34\<rparr>"
  have b: "?bytes = MThd @ [0, 0, 0, 6, 0, 1, 0, 2, 0, 0x60] @ concat (map chunkBytes [?c1, ?c2])"
    by (simp add: header1_def bassTrack_def unnamedTrack_def chunkBytes_def)
  have n: "bytesToUInt16 [0, 2] 0 = Inr (of_nat (length [?c1, ?c2]))"
    by (simp add: bytesToUInt16_def at_def bindE_def)
  have l: "length [?c1, ?c2] < 2 ^ 16"
    by simp
  have v: "\<forall>c\<in>set [?c1, ?c2]. validChunk c \<and> length (snd c) + 8 < 2 ^ 32"
    by (simp add: validChunk_def bytesToUInt32_def at_def bindE_def bassEvent_def)
  have t: "fst (readTracks heap_ok (ifstream ?bytes)) = Inr ([0, 0x60], [t1, t2])"
    unfolding t1_def t2_def by code_simp
  have o1: "outPath ''out'' ''Song'' t1 = (''out'', ''Song - Bass.mid'')"
    and o2: "outPath ''out'' ''Song'' t2 = (''out'', ''Song - Track 2.mid'')"
    unfolding t1_def t2_def by code_simp+
  have d: "distinct (map (outPath ''out'' ''Song'') [t1, t2])"
    by (simp add: o1 o2)
  have f: "\<forall>t\<in>set [t1, t2]. files empty_dir (outPath ''out'' ''Song'' t) = None
                               \<and> creatable empty_dir (outPath ''out'' ''Song'' t)
                               \<and> \<not> status_fails empty_dir (outPath ''out'' ''Song'' t)"
    by (simp add: empty_dir_def)
  from splitMIDIFile_lossless_when_fresh [OF b n l v t d f]
  obtain fs' where r: "splitMIDIFile heap_ok (Some ?bytes) ''Song'' ''out'' empty_dir
                         = Some (Inr (length [?c1, ?c2]), fs')"
    and g: "\<forall>k<length [?c1, ?c2]. files fs' (outPath ''out'' ''Song'' ([t1, t2] ! k))
              = Some (MThd @ [0, 0, 0, 6, 0, 1, 0, 1, 0, 0x60] @ chunkBytes ([?c1, ?c2] ! k))"
    by blast
  from g have "files fs' (outPath ''out'' ''Song'' ([t1, t2] ! 0))
              = Some (MThd @ [0, 0, 0, 6, 0, 1, 0, 1, 0, 0x60] @ chunkBytes ([?c1, ?c2] ! 0))"
    by (metis length_Cons zero_less_Suc)
  then have g1: "files fs' (''out'', ''Song - Bass.mid'') = Some (header1 1 @ bassTrack)"
    by (simp add: o1 header1_def bassTrack_def chunkBytes_def)
  from g have "files fs' (outPath ''out'' ''Song'' ([t1, t2] ! 1))
              = Some (MThd @ [0, 0, 0, 6, 0, 1, 0, 1, 0, 0x60] @ chunkBytes ([?c1, ?c2] ! 1))"
    by (metis One_nat_def length_Cons lessI list.size(3))
  then have g2: "files fs' (''out'', ''Song - Track 2.mid'') = Some (header1 1 @ unnamedTrack)"
    by (simp add: o2 header1_def unnamedTrack_def chunkBytes_def)
  from r g1 g2 show ?thesis by auto
qed

text \<open>
  The size passed to \<^verbatim>\<open>copyStream\<close> is \<^verbatim>\<open>8 + track.size\<close> in \<^verbatim>\<open>uint32_t\<close>: for a track that
  declares \<open>2^32 - 8\<close> bytes it is 0, and the output file holds the header only.
\<close>

lemma safe_A: "getSafeFilename ''A'' = ''A''"
  by code_simp

lemma copyStream_zero: "copyStream inp out fs 0 = (Inr (), inp, fs)"
  by (subst copyStream.simps) simp

lemma native_A: "native (''out'', ''Song - A.mid'') = (''out'', ''Song - A.mid'')"
  by code_simp

lemma writeTracks_size_wraps:
  "map_option (\<lambda>r. (fst r, files (snd r) (''out'', ''Song - A.mid'')))
     (writeTracks hdr ''Song'' ''out''
        [\<lparr>number = 1, name = ''A'', size_bytes = 0xFFFFFFF8, position = 14\<rparr>]
        (ifstream bytes) empty_dir 0)
   = Some (Inr 1, Some hdr)"
  by (simp add: safe_A native_A collisionLoop_eq exists_def empty_dir_def open_ofstream_def
                owrite_def seekg_def clear_def ifstream_def fail_def copyStream_zero Let_def)

text \<open>
  Two track names that differ only after a NUL character give one native path: the
  file of the first is in the way of the second.
\<close>

lemma native_truncates:
  "native (''out'', ''Song - A'' @ [CHR 0x00] @ ''x.mid'')
     = native (''out'', ''Song - A'' @ [CHR 0x00] @ ''y.mid'')"
  by code_simp

section \<open>Inputs on which the splitter departs from its specification\<close>

text \<open>
  Claim C2. With \<^verbatim>\<open>Song - Bass.mid\<close> in the output directory, splitting a file whose
  track is named \<^verbatim>\<open>Bass\<close> does not return: the collision loop never changes the path it
  tests. No \<^verbatim>\<open>Song - Bass (Copy 1).mid\<close> is produced.
\<close>

theorem splitMIDIFile_existing_output_diverges:
  "splitMIDIFile heap_ok (Some (header1 1 @ bassTrack)) ''Song'' ''out'' bass_dir = None"
  by code_simp

text \<open>
  Claim C1. A Format-1 file with two tracks that are both named \<^verbatim>\<open>Bass\<close>, split into an
  empty directory: the file written for the first track is in the way of the second,
  and the call does not return.
\<close>

theorem splitMIDIFile_same_name_tracks_diverges:
  "splitMIDIFile heap_ok (Some (header1 2 @ bassTrack @ bassTrack)) ''Song'' ''out'' empty_dir
     = None"
  by code_simp

text \<open>
  Claim C3. The first track of a file, without a name event, is named \<^verbatim>\<open>Track 1\<close>: the
  name \<^verbatim>\<open>Tempo Track\<close> is given only when \<^verbatim>\<open>extractTrackName\<close> raises.
\<close>

theorem readTracks_unnamed_first_track:
  "fst (readTracks heap_ok (ifstream (header1 1 @ unnamedTrack)))
     = Inr ([0, 0x60], [\<lparr>number = 1, name = ''Track 1'', size_bytes = 4, position = 14\<rparr>])"
  by code_simp

text \<open>
  Claim C5. A file whose only track declares 100 bytes and holds 4 is not rejected:
  the seek past the end of the file succeeds, the track loop ends, and one output file
  is written, with the bytes that were there.
\<close>

theorem splitMIDIFile_truncated_track_accepted:
  "map_option fst
     (splitMIDIFile heap_ok (Some (header1 1 @ shortTrack)) ''Song'' ''out'' empty_dir)
     = Some (Inr 1)
   \<and> map_option (\<lambda>r. files (snd r) (''out'', ''Song - Track 1.mid''))
       (splitMIDIFile heap_ok (Some (header1 1 @ shortTrack)) ''Song'' ''out'' empty_dir)
     = Some (Some (header1 1 @ shortTrack))"
  by code_simp

text \<open>
  When the short track is followed by another declared track, the call does fail, but
  at the header of the following track and with the exception for a track header that
  cannot be read.
\<close>

lemma splitMIDIFile_truncated_before_last_track:
  "splitMIDIFile heap_ok (Some (header1 2 @ shortTrack)) ''Song'' ''out'' empty_dir
     = Some (Inl (TrackHeaderReadError 2), empty_dir)"
proof -
  have "fst (readTracks heap_ok (ifstream (header1 2 @ shortTrack)))
          = Inl (TrackHeaderReadError 2)"
    by code_simp
  then show ?thesis
    by (auto simp: splitMIDIFile_def split: prod.splits sum.splits)
qed

end
